theory Spec2Isabelle
  imports Complex_Main
begin

section \<open>Lobby Simulator: the drawing state machine and the Steam room allow-list\<close>

text \<open>
  A shallow embedding of class \<open>LobbySim\<close> (the latest revision in the repository, the one
  with \<open>rerollDrawing\<close>, \<open>_pickWinner\<close> and \<open>_removeWinner\<close>). Every method becomes a
  function that takes the object state and returns the new one; a \<open>TypeError\<close> that
  JavaScript raises on a property read of \<open>undefined\<close> is the left injection of a sum.

  What lies outside the program enters as an argument or as a field of the state: the
  draws of \<open>Math.random\<close>, the clock, the database found at start-up, the Steam id of the
  bot and the member lists that the Steam library keeps. Database queries take effect in
  the order in which they are issued. A handler runs to its end before any promise
  callback it registered; the callbacks that touch the object are kept in a list and run
  after the handler has returned, either at once or when an event of their own serves
  them (the two ways to run a list of events, below).
\<close>

subsection \<open>JavaScript array primitives\<close>

text \<open>\<open>Array.prototype.indexOf\<close>: the first index holding the value, \<open>-1\<close> when absent.\<close>

fun indexOf :: "'a list \<Rightarrow> 'a \<Rightarrow> int" where
  "indexOf [] x = -1"
| "indexOf (y # ys) x =
     (if y = x then 0 else (let i = indexOf ys x in if i < 0 then -1 else i + 1))"

text \<open>
  \<open>Array.prototype.splice(start, deleteCount)\<close> without inserted items, on the array that
  remains. A negative \<open>start\<close> counts from the end and is clamped at \<open>0\<close>; a \<open>start\<close>
  beyond the end is clamped at the length. With \<open>deleteCount\<close> omitted (\<open>None\<close>),
  everything from \<open>start\<close> on is deleted.
\<close>

definition splice_js :: "int \<Rightarrow> nat option \<Rightarrow> 'a list \<Rightarrow> 'a list" where
  "splice_js start deleteCount xs =
     (let n = int (length xs);
          k = nat (if start < 0 then max (n + start) 0 else min start n)
      in case deleteCount of
           None \<Rightarrow> take k xs
         | Some c \<Rightarrow> take k xs @ drop (k + c) xs)"

subsection \<open>Data model\<close>

text \<open>Identities are strings and are compared as \<open>===\<close> compares strings.\<close>

type_synonym steamid = string
type_synonym chatid = string
type_synonym twitch_channel = string
type_synonym username = string

text \<open>One element of \<open>this.drawings\<close>. The broadcast timer \<open>msgInterval\<close> is left out.
  \<open>drawing_id\<close> is the field \<open>id\<close>, undefined (\<open>None\<close>) until the drawing is loaded.\<close>

record drawing =
  open_flag :: bool
  winners :: "username list"
  entries :: "username list"
  lastTime :: int
  drawing_id :: "nat option"

datatype join_state = Joining | Joined | Failed

text \<open>One element of \<open>this.channels\<close>, keyed by the Steam chat id.\<close>

record room =
  allowedMembers :: "steamid list"
  state :: join_state
  key :: twitch_channel

text \<open>\<open>LobbySim~Channel\<close> and the configuration object.\<close>

record channel_config =
  chatID :: chatid
  mainUser :: steamid

record config =
  subMultiplier :: nat
  cfg_channels :: "(twitch_channel \<times> channel_config) list"

text \<open>The four tables that \<open>initDB\<close> creates, as lists of rows (the autoincrement
  primary keys of \<open>users\<close>, \<open>entries\<close> and \<open>winners\<close> are never read and are left out).\<close>

record database =
  users :: "(username \<times> steamid) list"
  drawings_tbl :: "(nat \<times> twitch_channel \<times> bool \<times> int) list"
  entries_tbl :: "(nat option \<times> username) list"
  winners_tbl :: "(int \<times> twitch_channel \<times> username) list"

text \<open>The user object that the chat connection hands to a command callback.\<close>

record chat_user =
  user_name :: username
  display_name :: string
  subscriber :: bool

text \<open>Calls made on the collaborators: \<open>chatConnection.say\<close>, \<open>chatConnection.whisper\<close>
  and \<open>steamConnection.friends.kick\<close>.\<close>

datatype action =
    Say twitch_channel string
  | Whisper username string
  | Kick chatid steamid

text \<open>
  The promise callbacks that touch the object state after their query or request has
  returned: the one of \<open>_pickWinner\<close> (push the winner's Steam id), the one of
  \<open>_removeWinner\<close> (splice it out), and the two of \<open>!play\<close>, which enter the user: after
  the query on \<open>users\<close> when no link was given, after the profile has been fetched (it
  yields the Steam id carried here) when one was. A handler only registers them; they run
  once the handler has returned.
\<close>

datatype callback =
    PushAllowed twitch_channel username
  | SpliceAllowed twitch_channel username
  | EnterStored twitch_channel chat_user
  | EnterFetched twitch_channel chat_user steamid

datatype error = TypeError

text \<open>
  The object state. \<open>chatRooms\<close> is \<open>steamConnection.friends.chatRooms\<close> (per chat, the ids
  of the members present, in enumeration order), \<open>steamID\<close> is
  \<open>steamConnection.client.steamID\<close>, \<open>pending\<close> holds the registered callbacks in the
  order of their queries, \<open>out\<close> is the log of calls made on the collaborators.
\<close>

record lobbysim =
  config :: config
  drawings :: "twitch_channel \<rightharpoonup> drawing"
  channels :: "chatid \<rightharpoonup> room"
  db :: database
  chatRooms :: "chatid \<rightharpoonup> steamid list"
  steamID :: steamid
  pending :: "callback list"
  out :: "action list"

datatype EChatMemberStateChange =
    Entered | Left | Disconnected | Kicked | Banned | VoiceSpeaking | VoiceDoneSpeaking
  | UnknownChange nat

subsection \<open>Access control\<close>

definition isAllowed :: "chatid \<Rightarrow> steamid \<Rightarrow> lobbysim \<Rightarrow> error + bool" where
  "isAllowed cid userID s =
     (case channels s cid of
        None \<Rightarrow> Inl TypeError
      | Some rm \<Rightarrow> Inr (indexOf (allowedMembers rm) userID \<noteq> -1 \<or> userID = steamID s))"

definition kickIfForbidden :: "chatid \<Rightarrow> steamid \<Rightarrow> lobbysim \<Rightarrow> error + lobbysim" where
  "kickIfForbidden cid userID s =
     (case isAllowed cid userID s of
        Inl e \<Rightarrow> Inl e
      | Inr allowed \<Rightarrow>
          if \<not> allowed then Inr (s\<lparr>out := out s @ [Kick cid userID]\<rparr>) else Inr s)"

text \<open>\<open>steamStateChanged\<close>: the first statement reads \<open>this.channels[chatID].key\<close>, which
  throws for an unknown chat; only \<open>Entered\<close> does more than write a debug line.\<close>

definition steamStateChanged ::
  "EChatMemberStateChange \<Rightarrow> steamid \<Rightarrow> chatid \<Rightarrow> steamid \<Rightarrow> lobbysim \<Rightarrow> error + lobbysim" where
  "steamStateChanged change userID cid byID s =
     (case channels s cid of
        None \<Rightarrow> Inl TypeError
      | Some rm \<Rightarrow>
          (case change of
             Entered \<Rightarrow> kickIfForbidden cid userID s
           | _ \<Rightarrow> Inr s))"

subsection \<open>Collaborator calls\<close>

definition say :: "twitch_channel \<Rightarrow> string \<Rightarrow> lobbysim \<Rightarrow> lobbysim" where
  "say ch msg s = s\<lparr>out := out s @ [Say ch msg]\<rparr>"

definition whisper :: "username \<Rightarrow> string \<Rightarrow> lobbysim \<Rightarrow> lobbysim" where
  "whisper u msg s = s\<lparr>out := out s @ [Whisper u msg]\<rparr>"

definition drawingUsage :: "username \<Rightarrow> lobbysim \<Rightarrow> lobbysim" where
  "drawingUsage u s =
     whisper u (''!draw usage: !draw open to open a drawing | '' @
                ''!draw close <number of winners> to close a drawing | '' @
                ''!draw reroll <user> to reroll a winner'') s"

definition openDrawingMsg :: "twitch_channel \<Rightarrow> lobbysim \<Rightarrow> lobbysim" where
  "openDrawingMsg ch s =
     say ch (''There is now an open drawing! Type !play <link to steam profile> to '' @
             ''enter!'') s"

text \<open>\<open>kickForbiddenUsers\<close>: a \<open>for ... in\<close> over the members present in the chat (over
  nothing when Steam holds no such chat).\<close>

fun kick_each :: "chatid \<Rightarrow> steamid list \<Rightarrow> lobbysim \<Rightarrow> error + lobbysim" where
  "kick_each cid [] s = Inr s"
| "kick_each cid (u # us) s =
     (case kickIfForbidden cid u s of Inl e \<Rightarrow> Inl e | Inr s' \<Rightarrow> kick_each cid us s')"

definition kickForbiddenUsers :: "chatid \<Rightarrow> lobbysim \<Rightarrow> error + lobbysim" where
  "kickForbiddenUsers cid s =
     kick_each cid (case chatRooms s cid of None \<Rightarrow> [] | Some ms \<Rightarrow> ms) s"

subsection \<open>Promise callbacks\<close>

text \<open>The rows of \<open>select steamID from users where username = u\<close>.\<close>

definition users_steamID :: "database \<Rightarrow> username \<Rightarrow> steamid list" where
  "users_steamID d u = map snd (filter (\<lambda>row. fst row = u) (users d))"

text \<open>\<open>enterDrawing\<close>: one push and one insert per ticket.\<close>

fun add_tickets :: "nat \<Rightarrow> twitch_channel \<Rightarrow> username \<Rightarrow> lobbysim \<Rightarrow> error + lobbysim" where
  "add_tickets 0 ch u s = Inr s"
| "add_tickets (Suc k) ch u s =
     (case drawings s ch of
        None \<Rightarrow> Inl TypeError
      | Some d \<Rightarrow>
          add_tickets k ch u
            (s\<lparr>drawings := (drawings s)(ch \<mapsto> d\<lparr>entries := entries d @ [u]\<rparr>),
               db := (db s)\<lparr>entries_tbl := entries_tbl (db s) @ [(drawing_id d, u)]\<rparr>\<rparr>))"

definition enterDrawing :: "twitch_channel \<Rightarrow> chat_user \<Rightarrow> lobbysim \<Rightarrow> error + lobbysim" where
  "enterDrawing ch user s =
     (let tickets = (if subscriber user then subMultiplier (config s) else 1)
      in add_tickets tickets ch (user_name user) s)"

text \<open>
  The callback of \<open>_pickWinner\<close> pushes \<open>rows[0].steamID\<close> on the room's \<open>allowedMembers\<close>;
  the callback of \<open>_removeWinner\<close> calls \<open>allowedMembers.splice(allowedMembers.indexOf(
  rows[0].steamID))\<close>, with one argument. The callback of \<open>!play\<close> without a link asks
  for a link when the user has no row, says so when the user is in the pool already, and
  enters the user otherwise. The callback of \<open>!play\<close> with a link updates the user's Steam
  id; when no row was updated it inserts one and enters the user without a look at the
  pool, otherwise it enters the user unless the user is in the pool already (the update,
  the insert and the entry are one step here). Neither tests again whether the drawing is
  open. An exception inside a callback (no row, no such room, no such drawing) rejects the
  promise and leaves the object as it was at that point.
\<close>

fun run_callback :: "callback \<Rightarrow> lobbysim \<Rightarrow> lobbysim" where
  "run_callback (PushAllowed ch w) s =
     (case users_steamID (db s) w of
        [] \<Rightarrow> s
      | sid # _ \<Rightarrow>
          (case map_of (cfg_channels (config s)) ch of
             None \<Rightarrow> s
           | Some cc \<Rightarrow>
               (case channels s (chatID cc) of
                  None \<Rightarrow> s
                | Some rm \<Rightarrow>
                    s\<lparr>channels := (channels s)(chatID cc \<mapsto>
                         rm\<lparr>allowedMembers := allowedMembers rm @ [sid]\<rparr>)\<rparr>)))"
| "run_callback (SpliceAllowed ch w) s =
     (case users_steamID (db s) w of
        [] \<Rightarrow> s
      | sid # _ \<Rightarrow>
          (case map_of (cfg_channels (config s)) ch of
             None \<Rightarrow> s
           | Some cc \<Rightarrow>
               (case channels s (chatID cc) of
                  None \<Rightarrow> s
                | Some rm \<Rightarrow>
                    s\<lparr>channels := (channels s)(chatID cc \<mapsto>
                         rm\<lparr>allowedMembers :=
                              splice_js (indexOf (allowedMembers rm) sid) None
                                (allowedMembers rm)\<rparr>)\<rparr>)))"

| "run_callback (EnterStored ch user) s =
     (if length (users_steamID (db s) (user_name user)) = 0 then
        whisper (user_name user)
          (''Append a link to your steam profile to enter the drawing '' @
           ''(e.g. !play steamcommunity.com/id/resonancesteam)'') s
      else
        (case drawings s ch of
           None \<Rightarrow> s
         | Some d \<Rightarrow>
             if indexOf (entries d) (user_name user) \<noteq> -1 then
               whisper (user_name user) ''You are already in the drawing!'' s
             else (case enterDrawing ch user s of Inl e \<Rightarrow> s | Inr s' \<Rightarrow> s')))"
| "run_callback (EnterFetched ch user sid) s =
     (let affected = length (filter (\<lambda>row. fst row = user_name user) (users (db s)));
          s1 = s\<lparr>db := (db s)\<lparr>users :=
                 map (\<lambda>row. if fst row = user_name user then (fst row, sid) else row)
                   (users (db s))\<rparr>\<rparr>
      in if affected = 0 then
           (let s2 = s1\<lparr>db := (db s1)\<lparr>users := users (db s1) @ [(user_name user, sid)]\<rparr>\<rparr>
            in case enterDrawing ch user s2 of Inl e \<Rightarrow> s2 | Inr s' \<Rightarrow> s')
         else
           (case drawings s1 ch of
              None \<Rightarrow> s1
            | Some d \<Rightarrow>
                if indexOf (entries d) (user_name user) \<noteq> -1 then s1
                else (case enterDrawing ch user s1 of Inl e \<Rightarrow> s1 | Inr s' \<Rightarrow> s')))"

text \<open>Serving the callbacks that are pending, in the order in which they were
  registered.\<close>

definition settle :: "lobbysim \<Rightarrow> lobbysim" where
  "settle s = foldl (\<lambda>t c. run_callback c t) (s\<lparr>pending := []\<rparr>) (pending s)"

subsection \<open>Winner selection\<close>

text \<open>
  The loop of \<open>_pickWinner\<close> that retires the winner's tickets:
  \<open>for (j = entries.length - 1; j >= 0; j--) if (entries[j] === winner) entries.splice(j, 1)\<close>.
  \<open>remove_tickets n w es\<close> is the loop with \<open>n\<close> positions still to visit.
\<close>

fun remove_tickets :: "nat \<Rightarrow> 'a \<Rightarrow> 'a list \<Rightarrow> 'a list" where
  "remove_tickets 0 w es = es"
| "remove_tickets (Suc j) w es =
     remove_tickets j w (if es ! j = w then splice_js (int j) (Some 1) es else es)"

text \<open>
  \<open>_pickWinner\<close>. \<open>Math.random()\<close> is outside the program: the argument \<open>r\<close> stands for
  the draw, reduced modulo the size of the pool so that, like
  \<open>Math.floor(Math.random() * entries.length)\<close>, the index lies in \<open>0 ..< entries.length\<close>
  and every index can come up. The result is \<open>None\<close> for JavaScript's \<open>null\<close>.
\<close>

definition pickWinner ::
  "nat \<Rightarrow> twitch_channel \<Rightarrow> lobbysim \<Rightarrow> error + (username option \<times> lobbysim)" where
  "pickWinner r ch s =
     (case drawings s ch of
        None \<Rightarrow> Inl TypeError
      | Some d \<Rightarrow>
          if length (entries d) = 0 then Inr (None, s)
          else
            let winner = entries d ! (r mod length (entries d));
                d' = d\<lparr>entries := remove_tickets (length (entries d)) winner (entries d),
                       winners := winners d @ [winner]\<rparr>;
                db' = (db s)\<lparr>
                        entries_tbl := filter (\<lambda>row. snd row \<noteq> winner) (entries_tbl (db s)),
                        winners_tbl := winners_tbl (db s) @ [(lastTime d, ch, winner)]\<rparr>
            in Inr (Some winner,
                    s\<lparr>drawings := (drawings s)(ch \<mapsto> d'), db := db',
                      pending := pending s @ [PushAllowed ch winner]\<rparr>))"

text \<open>\<open>_removeWinner\<close>: \<open>winners.splice(index, 1)\<close> at the first index of the winner.\<close>

definition removeWinner ::
  "twitch_channel \<Rightarrow> username \<Rightarrow> lobbysim \<Rightarrow> error + (bool \<times> lobbysim)" where
  "removeWinner ch winner s =
     (case drawings s ch of
        None \<Rightarrow> Inl TypeError
      | Some d \<Rightarrow>
          let index = indexOf (winners d) winner in
          if index = -1 then Inr (False, s)
          else
            let d' = d\<lparr>winners := splice_js index (Some 1) (winners d)\<rparr>;
                db' = (db s)\<lparr>winners_tbl :=
                        filter (\<lambda>(t, c, u). \<not> (u = winner \<and> t = lastTime d))
                          (winners_tbl (db s))\<rparr>
            in Inr (True,
                    s\<lparr>drawings := (drawings s)(ch \<mapsto> d'), db := db',
                      pending := pending s @ [SpliceAllowed ch winner]\<rparr>))"

text \<open>
  The value that the argument \<open>nWinners\<close> (a word of the chat message, or \<open>undefined\<close>)
  has as a JavaScript number: this is all that \<open>isNaN(nWinners)\<close> and \<open>i < nWinners\<close> read.
\<close>

datatype number = NaN | Finite rat | PosInfinity | NegInfinity

fun isNaN :: "number \<Rightarrow> bool" where
  "isNaN NaN = True"
| "isNaN _ = False"

text \<open>The loop test \<open>i < nWinners\<close> for a counter \<open>i\<close>.\<close>

fun counter_less :: "nat \<Rightarrow> number \<Rightarrow> bool" where
  "counter_less i NaN = False"
| "counter_less i (Finite q) = (of_nat i < q)"
| "counter_less i PosInfinity = True"
| "counter_less i NegInfinity = False"

text \<open>The ticket loop deletes exactly the winner's entries; \<open>closeDrawing\<close>'s loop
  terminates because of it.\<close>

lemma splice_js_at:
  "j < length xs \<Longrightarrow> splice_js (int j) (Some c) xs = take j xs @ drop (j + c) xs"
  by (simp add: splice_js_def Let_def)

lemma remove_tickets_filter_take:
  "n \<le> length es \<Longrightarrow> remove_tickets n w es = filter (\<lambda>e. e \<noteq> w) (take n es) @ drop n es"
proof (induction n arbitrary: es)
  case 0
  then show ?case by simp
next
  case (Suc j)
  then have j: "j < length es" by simp
  show ?case
  proof (cases "es ! j = w")
    case True
    have "remove_tickets (Suc j) w es = remove_tickets j w (take j es @ drop (Suc j) es)"
      using True j by (simp add: splice_js_at)
    also have "\<dots> = filter (\<lambda>e. e \<noteq> w) (take j es) @ drop (Suc j) es"
      using j by (subst Suc.IH) (simp_all add: min_def)
    finally show ?thesis using True j by (simp add: take_Suc_conv_app_nth)
  next
    case False
    then show ?thesis using j Suc.IH [of es]
      by (simp add: take_Suc_conv_app_nth Cons_nth_drop_Suc)
  qed
qed

lemma remove_tickets_filter: "remove_tickets (length es) w es = filter (\<lambda>e. e \<noteq> w) es"
  by (simp add: remove_tickets_filter_take)

text \<open>
  The loop of \<open>closeDrawing\<close>: \<open>for (let i = 0; i < nWinners; i++) if (this._pickWinner(channel)
  === null) break\<close>. \<open>rnd i\<close> is the draw of iteration \<open>i\<close>.
\<close>

function pick_loop ::
  "(nat \<Rightarrow> nat) \<Rightarrow> number \<Rightarrow> nat \<Rightarrow> twitch_channel \<Rightarrow> lobbysim \<Rightarrow> error + lobbysim" where
  "pick_loop rnd n i ch s =
     (if counter_less i n then
        (case pickWinner (rnd i) ch s of
           Inl e \<Rightarrow> Inl e
         | Inr (None, s') \<Rightarrow> Inr s'
         | Inr (Some w, s') \<Rightarrow> pick_loop rnd n (Suc i) ch s')
      else Inr s)"
  by pat_completeness auto
termination
proof (relation "measure (\<lambda>(rnd, n, i, ch, s).
          case drawings s ch of None \<Rightarrow> 0 | Some d \<Rightarrow> length (entries d))")
  show "wf (measure (\<lambda>(rnd, n, i, ch, s).
          case drawings s ch of None \<Rightarrow> 0 | Some d \<Rightarrow> length (entries d)))"
    by simp
next
  fix rnd :: "nat \<Rightarrow> nat" and n i ch s x xa y x2
  assume "counter_less i n" and p: "pickWinner (rnd i) ch s = Inr x"
    and x: "(xa, y) = x" "xa = Some x2"
  from p x obtain d where d: "drawings s ch = Some d" "entries d \<noteq> []"
    and y: "drawings y ch =
              Some (d\<lparr>entries := remove_tickets (length (entries d)) x2 (entries d),
                      winners := winners d @ [x2]\<rparr>)"
    and w: "x2 = entries d ! (rnd i mod length (entries d))"
    by (auto simp: pickWinner_def Let_def split: option.splits if_splits)
  have "x2 \<in> set (entries d)" using d w by simp
  then have "length (filter (\<lambda>e. e \<noteq> x2) (entries d)) < length (entries d)"
    by (metis (mono_tags, lifting) length_filter_less)
  then show "((rnd, n, Suc i, ch, y), (rnd, n, i, ch, s)) \<in> measure (\<lambda>(rnd, n, i, ch, s).
          case drawings s ch of None \<Rightarrow> 0 | Some d \<Rightarrow> length (entries d))"
    using d y by (simp add: remove_tickets_filter)
qed

declare pick_loop.simps [simp del]

subsection \<open>The drawing commands\<close>

text \<open>Writes to the \<open>drawings\<close> and \<open>entries\<close> tables. A \<open>where\<close> on an undefined id
  matches no row.\<close>

definition db_set_open :: "nat option \<Rightarrow> database \<Rightarrow> database" where
  "db_set_open i d =
     d\<lparr>drawings_tbl :=
          map (\<lambda>(j, c, b, t). if i = Some j then (j, c, True, t) else (j, c, b, t))
            (drawings_tbl d)\<rparr>"

definition db_set_closed :: "nat option \<Rightarrow> int \<Rightarrow> database \<Rightarrow> database" where
  "db_set_closed i now d =
     d\<lparr>drawings_tbl :=
          map (\<lambda>(j, c, b, t). if i = Some j then (j, c, False, now) else (j, c, b, t))
            (drawings_tbl d)\<rparr>"

definition db_del_entries_of :: "nat option \<Rightarrow> database \<Rightarrow> database" where
  "db_del_entries_of i d =
     d\<lparr>entries_tbl := filter (\<lambda>row. \<not> (i \<noteq> None \<and> fst row = i)) (entries_tbl d)\<rparr>"

definition openDrawing :: "twitch_channel \<Rightarrow> username \<Rightarrow> lobbysim \<Rightarrow> error + lobbysim" where
  "openDrawing ch uname s =
     (case drawings s ch of
        None \<Rightarrow> Inl TypeError
      | Some d \<Rightarrow>
          if open_flag d then Inr (whisper uname ''There already is an open drawing!'' s)
          else
            let d' = d\<lparr>open_flag := True, winners := [], entries := []\<rparr>;
                s1 = openDrawingMsg ch (s\<lparr>drawings := (drawings s)(ch \<mapsto> d')\<rparr>)
            in Inr (s1\<lparr>db := db_del_entries_of (drawing_id d)
                              (db_set_open (drawing_id d) (db s1))\<rparr>))"

text \<open>\<open>_winnersMsg\<close>.\<close>

fun winners_joined :: "username list \<Rightarrow> string" where
  "winners_joined [] = []"
| "winners_joined [w] = w"
| "winners_joined (w # ws) = w @ '', '' @ winners_joined ws"

definition winnersMsg :: "twitch_channel \<Rightarrow> lobbysim \<Rightarrow> error + string" where
  "winnersMsg ch s =
     (case drawings s ch of
        None \<Rightarrow> Inl TypeError
      | Some d \<Rightarrow>
          if length (winners d) = 0 then Inr ''The drawing has been closed with no entrants!''
          else Inr (''The drawing has been closed. The winners are: '' @
                    winners_joined (winners d) @
                    ''! Please join the chat at steam://friends/joinchat/103582791439961479''))"

text \<open>\<open>closeDrawing\<close>; \<open>now\<close> is the clock reading \<open>(new Date).getTime()\<close>. The sweep
  \<open>kickForbiddenUsers\<close> at the end runs before any callback of the picks.\<close>

definition closeDrawing ::
  "twitch_channel \<Rightarrow> username \<Rightarrow> number \<Rightarrow> int \<Rightarrow> (nat \<Rightarrow> nat) \<Rightarrow> lobbysim \<Rightarrow> error + lobbysim"
  where
  "closeDrawing ch uname nWinners now rnd s =
     (case drawings s ch of
        None \<Rightarrow> Inl TypeError
      | Some d \<Rightarrow>
          if \<not> open_flag d then Inr (whisper uname ''There is no open drawing!'' s)
          else if isNaN nWinners then Inr (drawingUsage uname s)
          else
            let d1 = d\<lparr>open_flag := False, lastTime := now\<rparr>;
                s1 = s\<lparr>drawings := (drawings s)(ch \<mapsto> d1),
                       db := db_set_closed (drawing_id d) now (db s)\<rparr>
            in (case (if length (entries d1) \<noteq> 0 then pick_loop rnd nWinners 0 ch s1
                      else Inr s1) of
                  Inl e \<Rightarrow> Inl e
                | Inr s2 \<Rightarrow>
                    (case winnersMsg ch s2 of
                       Inl e \<Rightarrow> Inl e
                     | Inr msg \<Rightarrow>
                         (case map_of (cfg_channels (config s2)) ch of
                            None \<Rightarrow> Inl TypeError
                          | Some channelConfig \<Rightarrow>
                              kickForbiddenUsers (chatID channelConfig) (say ch msg s2)))))"

text \<open>
  The \<open>!play\<close> handler. It tests at once whether the drawing is open; everything else
  happens in a callback: without a link after the query on \<open>users\<close>, with a link after
  the profile has been fetched and parsed. \<open>Link r\<close> is a command with a link, \<open>r\<close> the
  Steam id that the fetched profile yields, \<open>None\<close> when the request or the parse fails
  (the handler then does nothing more).
\<close>

datatype play_args = NoLink | Link "steamid option"

definition play ::
  "twitch_channel \<Rightarrow> chat_user \<Rightarrow> play_args \<Rightarrow> lobbysim \<Rightarrow> error + lobbysim" where
  "play ch user args s =
     (case drawings s ch of
        None \<Rightarrow> Inl TypeError
      | Some d \<Rightarrow>
          if \<not> open_flag d then Inr (whisper (user_name user) ''There is no open drawing!'' s)
          else
            (case args of
               NoLink \<Rightarrow> Inr (s\<lparr>pending := pending s @ [EnterStored ch user]\<rparr>)
             | Link None \<Rightarrow> Inr s
             | Link (Some sid) \<Rightarrow> Inr (s\<lparr>pending := pending s @ [EnterFetched ch user sid]\<rparr>)))"

text \<open>
  The \<open>!quit\<close> handler. The loop body calls \<open>this.drawings.splice\<close>; \<open>this.drawings\<close> is the
  object that maps channels to drawings, it has no such method, so the first iteration
  throws before anything is changed. When the loop is not entered, the user's rows of the
  \<open>entries\<close> table are deleted.
\<close>

definition quit :: "twitch_channel \<Rightarrow> chat_user \<Rightarrow> lobbysim \<Rightarrow> error + lobbysim" where
  "quit ch user s =
     (case drawings s ch of
        None \<Rightarrow> Inl TypeError
      | Some d \<Rightarrow>
          if indexOf (entries d) (display_name user) \<noteq> -1 then Inl TypeError
          else Inr (s\<lparr>db := (db s)\<lparr>entries_tbl :=
                      filter (\<lambda>row. snd row \<noteq> user_name user) (entries_tbl (db s))\<rparr>\<rparr>))"

text \<open>\<open>rerollDrawing\<close>; the argument \<open>winner\<close> is \<open>None\<close> when the command had no second
  word.\<close>

definition rerollDrawing ::
  "twitch_channel \<Rightarrow> username \<Rightarrow> username option \<Rightarrow> nat \<Rightarrow> lobbysim \<Rightarrow> error + lobbysim" where
  "rerollDrawing ch uname winner r s =
     (case winner of
        None \<Rightarrow> Inr (drawingUsage uname s)
      | Some w \<Rightarrow>
          (case removeWinner ch w s of
             Inl e \<Rightarrow> Inl e
           | Inr (False, s1) \<Rightarrow> Inr (whisper uname (w @ '' didn't win the drawing!'') s1)
           | Inr (True, s1) \<Rightarrow>
               (case pickWinner r ch s1 of
                  Inl e \<Rightarrow> Inl e
                | Inr (None, s2) \<Rightarrow> Inr (say ch ''There are no entrants left'' s2)
                | Inr (Some newWinner, s2) \<Rightarrow>
                    Inr (say ch (w @ '' has been replaced by '' @ newWinner @ ''!'') s2))))"

subsection \<open>Construction and loading\<close>

text \<open>
  The constructor: one room per configured channel, allowing the channel's main user, and
  one closed, empty drawing per configured channel. \<open>store\<close> is the database found at
  start-up, \<open>botID\<close> the Steam id of the bot's account, \<open>present\<close> Steam's member lists.
\<close>

definition constructor ::
  "config \<Rightarrow> database \<Rightarrow> steamid \<Rightarrow> (chatid \<rightharpoonup> steamid list) \<Rightarrow> lobbysim" where
  "constructor cfg store botID present =
     \<lparr>config = cfg,
      drawings = foldl (\<lambda>m (k, c). m(k \<mapsto>
                   \<lparr>open_flag = False, winners = [], entries = [], lastTime = -1,
                    drawing_id = None\<rparr>)) Map.empty (cfg_channels cfg),
      channels = foldl (\<lambda>m (k, c). m(chatID c \<mapsto>
                   \<lparr>allowedMembers = [mainUser c], state = Joining, key = k\<rparr>))
                   Map.empty (cfg_channels cfg),
      db = store, chatRooms = present, steamID = botID, pending = [], out = []\<rparr>"

fun max_time :: "int list \<Rightarrow> int option" where
  "max_time [] = None"
| "max_time (t # ts) = (case max_time ts of None \<Rightarrow> Some t | Some m \<Rightarrow> Some (max t m))"

text \<open>The rows (username, steamID) of \<open>winners join users on winners.user = users.username
  where time = (select max(time) from winners) and channel = ch\<close>.\<close>

definition latest_winners :: "database \<Rightarrow> twitch_channel \<Rightarrow> (username \<times> steamid) list" where
  "latest_winners d ch =
     concat (map (\<lambda>(t, c, u).
                if Some t = max_time (map fst (winners_tbl d)) \<and> c = ch
                then filter (\<lambda>row. fst row = u) (users d) else [])
             (winners_tbl d))"

text \<open>
  The handler of \<open>initialized-db\<close> for a channel, with the queries it chains run to the
  end: a channel without a row in \<open>drawings\<close> gets one (with the next id); otherwise the
  drawing, its entries and the latest winners are loaded and the room's allow-list is
  rebuilt from the main user and the winners' Steam ids. (The handler reads the channel
  from the \<open>var\<close> of the constructor's loop; the argument \<open>ch\<close> is the value it finds
  there.)
\<close>

definition initialized_db :: "twitch_channel \<Rightarrow> lobbysim \<Rightarrow> error + lobbysim" where
  "initialized_db ch s =
     (case drawings s ch of
        None \<Rightarrow> Inl TypeError
      | Some d \<Rightarrow>
          (case filter (\<lambda>(j, c, b, t). c = ch) (drawings_tbl (db s)) of
             [] \<Rightarrow>
               let new_id = Suc (foldr max (map fst (drawings_tbl (db s))) 0)
               in Inr (s\<lparr>db := (db s)\<lparr>drawings_tbl :=
                                 drawings_tbl (db s) @ [(new_id, ch, False, -1)]\<rparr>,
                         drawings := (drawings s)(ch \<mapsto> d\<lparr>drawing_id := Some new_id\<rparr>)\<rparr>)
           | (j, c, b, t) # _ \<Rightarrow>
               let rows = latest_winners (db s) ch;
                   d' = d\<lparr>drawing_id := Some j, open_flag := b, lastTime := t,
                          entries := map snd (filter (\<lambda>row. fst row = Some j)
                                                (entries_tbl (db s))),
                          winners := map fst rows\<rparr>
               in (case map_of (cfg_channels (config s)) ch of
                     None \<Rightarrow> Inl TypeError
                   | Some channelConfig \<Rightarrow>
                       (case channels s (chatID channelConfig) of
                          None \<Rightarrow> Inl TypeError
                        | Some rm \<Rightarrow>
                            Inr (s\<lparr>drawings := (drawings s)(ch \<mapsto> d'),
                                   channels := (channels s)(chatID channelConfig \<mapsto>
                                     rm\<lparr>allowedMembers :=
                                          mainUser channelConfig # map snd rows\<rparr>)\<rparr>)))))"

subsection \<open>Events\<close>

text \<open>
  What reaches the object: the three \<open>!draw\<close> subcommands, \<open>!play\<close> without and with a
  link, \<open>!quit\<close>, the \<open>initialized-db\<close> event and Steam's \<open>chatStateChange\<close>; and
  \<open>Served i\<close>, the moment at which the pending callback number \<open>i\<close> is served.
\<close>

datatype event =
    DrawOpen username
  | DrawClose username number int "nat \<Rightarrow> nat"
  | DrawReroll username "username option" nat
  | PlayCmd chat_user
  | PlayLinkCmd chat_user "steamid option"
  | QuitCmd chat_user
  | InitializedDb
  | ChatStateChange EChatMemberStateChange steamid chatid steamid
  | Served nat

definition serve :: "nat \<Rightarrow> lobbysim \<Rightarrow> lobbysim" where
  "serve i s =
     (if i < length (pending s)
      then run_callback (pending s ! i)
             (s\<lparr>pending := take i (pending s) @ drop (Suc i) (pending s)\<rparr>)
      else s)"

fun handle :: "twitch_channel \<Rightarrow> event \<Rightarrow> lobbysim \<Rightarrow> error + lobbysim" where
  "handle ch (DrawOpen u) s = openDrawing ch u s"
| "handle ch (DrawClose u n now rnd) s = closeDrawing ch u n now rnd s"
| "handle ch (DrawReroll u w r) s = rerollDrawing ch u w r s"
| "handle ch (PlayCmd user) s = play ch user NoLink s"
| "handle ch (PlayLinkCmd user r) s = play ch user (Link r) s"
| "handle ch (QuitCmd user) s = quit ch user s"
| "handle ch InitializedDb s = initialized_db ch s"
| "handle ch (ChatStateChange change userID cid byID) s =
     steamStateChanged change userID cid byID s"
| "handle ch (Served i) s = Inr (serve i s)"

text \<open>
  Two ways to run a list of events. In \<open>run\<close> every handler is followed at once by the
  callbacks it registered: each command is served to its end before the next one arrives.
  In \<open>run_deferred\<close> a callback waits until a \<open>Served\<close> event serves it, so that a
  command can arrive between a handler and its callback.
\<close>

definition step :: "twitch_channel \<Rightarrow> event \<Rightarrow> lobbysim \<Rightarrow> error + lobbysim" where
  "step ch ev s = (case handle ch ev s of Inl e \<Rightarrow> Inl e | Inr s' \<Rightarrow> Inr (settle s'))"

fun run :: "twitch_channel \<Rightarrow> event list \<Rightarrow> lobbysim \<Rightarrow> error + lobbysim" where
  "run ch [] s = Inr s"
| "run ch (ev # evs) s =
     (case step ch ev s of Inl e \<Rightarrow> Inl e | Inr s' \<Rightarrow> run ch evs s')"

fun run_deferred :: "twitch_channel \<Rightarrow> event list \<Rightarrow> lobbysim \<Rightarrow> error + lobbysim" where
  "run_deferred ch [] s = Inr s"
| "run_deferred ch (ev # evs) s =
     (case handle ch ev s of Inl e \<Rightarrow> Inl e | Inr s' \<Rightarrow> run_deferred ch evs s')"

subsection \<open>Observations\<close>

definition winners_of :: "twitch_channel \<Rightarrow> error + lobbysim \<Rightarrow> username list option" where
  "winners_of ch res =
     (case res of Inl e \<Rightarrow> None | Inr s \<Rightarrow> map_option winners (drawings s ch))"

definition entries_of :: "twitch_channel \<Rightarrow> error + lobbysim \<Rightarrow> username list option" where
  "entries_of ch res =
     (case res of Inl e \<Rightarrow> None | Inr s \<Rightarrow> map_option entries (drawings s ch))"

definition open_of :: "twitch_channel \<Rightarrow> error + lobbysim \<Rightarrow> bool option" where
  "open_of ch res =
     (case res of Inl e \<Rightarrow> None | Inr s \<Rightarrow> map_option open_flag (drawings s ch))"

definition allowed_of :: "chatid \<Rightarrow> error + lobbysim \<Rightarrow> steamid list option" where
  "allowed_of cid res =
     (case res of Inl e \<Rightarrow> None | Inr s \<Rightarrow> map_option allowedMembers (channels s cid))"

definition error_of :: "error + lobbysim \<Rightarrow> error option" where
  "error_of res = (case res of Inl e \<Rightarrow> Some e | Inr s \<Rightarrow> None)"

definition out_of :: "error + lobbysim \<Rightarrow> action list option" where
  "out_of res = (case res of Inl e \<Rightarrow> None | Inr s \<Rightarrow> Some (out s))"

definition stored_entries_of :: "error + lobbysim \<Rightarrow> (nat option \<times> username) list option" where
  "stored_entries_of res = (case res of Inl e \<Rightarrow> None | Inr s \<Rightarrow> Some (entries_tbl (db s)))"

text \<open>
  The allow-list as the specification derives it: the main member and the external
  identity of every current winner of the channel (a winner without a stored identity
  contributes nothing). The list stands for the set of its elements.
\<close>

definition recomputed_allow_list :: "twitch_channel \<Rightarrow> lobbysim \<Rightarrow> steamid list option" where
  "recomputed_allow_list ch s =
     (case map_of (cfg_channels (config s)) ch of
        None \<Rightarrow> None
      | Some cc \<Rightarrow>
          (case drawings s ch of
             None \<Rightarrow> None
           | Some d \<Rightarrow>
               Some (mainUser cc #
                     concat (map (\<lambda>w. take 1 (users_steamID (db s) w)) (winners d)))))"

definition recomputed_of :: "twitch_channel \<Rightarrow> error + lobbysim \<Rightarrow> steamid list option" where
  "recomputed_of ch res =
     (case res of Inl e \<Rightarrow> None | Inr s \<Rightarrow> recomputed_allow_list ch s)"

subsection \<open>A sample installation\<close>

text \<open>One channel \<open>#demo\<close> with room \<open>c1\<close> and main user \<open>m\<close>; subscribers get three
  tickets; four users have a Steam id on file.\<close>

definition demo_config :: config where
  "demo_config =
     \<lparr>subMultiplier = 3, cfg_channels = [(''#demo'', \<lparr>chatID = ''c1'', mainUser = ''m''\<rparr>)]\<rparr>"

definition demo_store :: database where
  "demo_store =
     \<lparr>users = [(''a'', ''sa''), (''b'', ''sb''), (''c'', ''sc''), (''d'', ''sd'')],
      drawings_tbl = [], entries_tbl = [], winners_tbl = []\<rparr>"

definition demo_start :: lobbysim where
  "demo_start = constructor demo_config demo_store ''bot'' Map.empty"

definition viewer :: "username \<Rightarrow> chat_user" where
  "viewer u = \<lparr>user_name = u, display_name = u, subscriber = False\<rparr>"

text \<open>An open drawing with five tickets of three entrants.\<close>

definition demo_pool_drawing :: drawing where
  "demo_pool_drawing =
     \<lparr>open_flag = True, winners = [], entries = [''a'', ''b'', ''b'', ''b'', ''c''],
      lastTime = -1, drawing_id = Some 1\<rparr>"

definition demo_pool :: lobbysim where
  "demo_pool = demo_start\<lparr>drawings := [''#demo'' \<mapsto> demo_pool_drawing]\<rparr>"

text \<open>A source of draws that always gives the same number.\<close>

definition always :: "nat \<Rightarrow> nat \<Rightarrow> nat" where
  "always r i = r"

text \<open>A round with a single entrant: loaded, opened, \<open>a\<close> enters, closed with one winner.\<close>

definition single_entrant_round :: "event list" where
  "single_entrant_round =
     [InitializedDb, DrawOpen ''mod'', PlayCmd (viewer ''a''),
      DrawClose ''mod'' (Finite 1) 1000 (always 0)]"

text \<open>A closed drawing with winners \<open>b\<close>, \<open>c\<close> and the ticket of \<open>a\<close> left in the pool.\<close>

definition demo_closed_drawing :: drawing where
  "demo_closed_drawing =
     \<lparr>open_flag = False, winners = [''b'', ''c''], entries = [''a''],
      lastTime = 1000, drawing_id = Some 1\<rparr>"

definition demo_closed :: lobbysim where
  "demo_closed = demo_start\<lparr>drawings := [''#demo'' \<mapsto> demo_closed_drawing]\<rparr>"

text \<open>A closed drawing with the single winner \<open>a\<close> and an empty pool.\<close>

definition demo_exhausted_drawing :: drawing where
  "demo_exhausted_drawing =
     \<lparr>open_flag = False, winners = [''a''], entries = [],
      lastTime = 1000, drawing_id = Some 1\<rparr>"

definition demo_exhausted :: lobbysim where
  "demo_exhausted = demo_start\<lparr>drawings := [''#demo'' \<mapsto> demo_exhausted_drawing]\<rparr>"

text \<open>
  A round with winners \<open>a\<close> and \<open>b\<close>, after which the drawing is opened again and \<open>b\<close>
  enters; the database this leaves behind; and the object constructed on it at the next
  start of the program.
\<close>

definition reopened_round :: "event list" where
  "reopened_round =
     [InitializedDb, DrawOpen ''mod'', PlayCmd (viewer ''a''), PlayCmd (viewer ''b''),
      DrawClose ''mod'' (Finite 2) 1000 (always 0), DrawOpen ''mod'', PlayCmd (viewer ''b'')]"

definition reopened_store :: database where
  "reopened_store =
     \<lparr>users = [(''a'', ''sa''), (''b'', ''sb''), (''c'', ''sc''), (''d'', ''sd'')],
      drawings_tbl = [(1, ''#demo'', True, 1000)],
      entries_tbl = [(Some 1, ''b'')],
      winners_tbl = [(1000, ''#demo'', ''a''), (1000, ''#demo'', ''b'')]\<rparr>"

definition demo_restarted :: lobbysim where
  "demo_restarted = constructor demo_config reopened_store ''bot'' Map.empty"

definition db_of :: "error + lobbysim \<Rightarrow> database option" where
  "db_of res = (case res of Inl e \<Rightarrow> None | Inr s \<Rightarrow> Some (db s))"

text \<open>A round with three entrants and two winners, \<open>a\<close> and \<open>b\<close>; \<open>c\<close> stays in the pool.\<close>

definition three_entrant_round :: "event list" where
  "three_entrant_round =
     [InitializedDb, DrawOpen ''mod'', PlayCmd (viewer ''a''), PlayCmd (viewer ''b''),
      PlayCmd (viewer ''c''), DrawClose ''mod'' (Finite 2) 1000 (always 0)]"

text \<open>A round with two entrants who both win.\<close>

definition two_entrant_round :: "event list" where
  "two_entrant_round =
     [InitializedDb, DrawOpen ''mod'', PlayCmd (viewer ''a''), PlayCmd (viewer ''b''),
      DrawClose ''mod'' (Finite 2) 1000 (always 0)]"

text \<open>A subscriber whose display name is spelt like the user name, and a viewer whose
  display name is capitalised.\<close>

definition subscriber_d :: chat_user where
  "subscriber_d = \<lparr>user_name = ''d'', display_name = ''d'', subscriber = True\<rparr>"

definition viewer_A :: chat_user where
  "viewer_A = \<lparr>user_name = ''a'', display_name = ''A'', subscriber = False\<rparr>"

text \<open>
  A database with an open drawing and three stored entries, as a program stopped during
  an open drawing leaves it, and the object constructed on it.
\<close>

definition open_store :: database where
  "open_store =
     \<lparr>users = [(''a'', ''sa''), (''b'', ''sb''), (''c'', ''sc''), (''d'', ''sd'')],
      drawings_tbl = [(1, ''#demo'', True, -1)],
      entries_tbl = [(Some 1, ''a''), (Some 1, ''b''), (Some 1, ''c'')],
      winners_tbl = []\<rparr>"

definition demo_reloaded :: lobbysim where
  "demo_reloaded = constructor demo_config open_store ''bot'' Map.empty"

text \<open>
  A round in which \<open>b\<close>, already entered, sends \<open>!play\<close> once more and the drawing is
  closed before the query of that command has returned; the callback is served after the
  close.
\<close>

definition late_entry_round :: "event list" where
  "late_entry_round =
     [InitializedDb, DrawOpen ''mod'', PlayCmd (viewer ''a''), Served 0,
      PlayCmd (viewer ''b''), Served 0, PlayCmd (viewer ''b''),
      DrawClose ''mod'' (Finite 2) 1000 (always 0), Served 0, Served 0, Served 0]"

text \<open>
  A round in which a user without a Steam id on file tries to enter: without a link,
  with a link that cannot be fetched, with one that yields \<open>se\<close> and with one that
  yields \<open>se2\<close>; then \<open>a\<close>, who has an id on file, enters with a link and tries again
  without one.
\<close>

definition link_round :: "event list" where
  "link_round =
     [InitializedDb, DrawOpen ''mod'', PlayCmd (viewer ''e''),
      PlayLinkCmd (viewer ''e'') None, PlayLinkCmd (viewer ''e'') (Some ''se''),
      PlayLinkCmd (viewer ''e'') (Some ''se2''), PlayLinkCmd (viewer ''a'') (Some ''sa2''),
      PlayCmd (viewer ''a'')]"

subsection \<open>A property of states\<close>

text \<open>No winner of a drawing has an entry in its pool, and an open drawing has no winners
  yet.\<close>

definition drawing_ok :: "drawing \<Rightarrow> bool" where
  "drawing_ok d \<longleftrightarrow> set (entries d) \<inter> set (winners d) = {} \<and> (open_flag d \<longrightarrow> winners d = [])"

definition pool_free_of_winners :: "lobbysim \<Rightarrow> bool" where
  "pool_free_of_winners s \<longleftrightarrow> (\<forall>ch d. drawings s ch = Some d \<longrightarrow> drawing_ok d)"

text \<open>The callbacks that enter a user.\<close>

fun is_enter :: "callback \<Rightarrow> bool" where
  "is_enter (EnterStored ch user) = True"
| "is_enter (EnterFetched ch user sid) = True"
| "is_enter (PushAllowed ch w) = False"
| "is_enter (SpliceAllowed ch w) = False"

section \<open>Properties\<close>

lemma indexOf_nonneg_iff: "0 \<le> indexOf xs x \<longleftrightarrow> x \<in> set xs"
  by (induction xs) (auto simp: Let_def)

lemma indexOf_ge_minus1: "-1 \<le> indexOf xs x"
  by (induction xs) (auto simp: Let_def)

lemma indexOf_absent_iff: "indexOf xs x = -1 \<longleftrightarrow> x \<notin> set xs"
  using indexOf_nonneg_iff [of xs x] indexOf_ge_minus1 [of xs x] by linarith

subsection \<open>Winner selection: what one pick and the loop do\<close>

lemma pickWinner_empty:
  "drawings s ch = Some d \<Longrightarrow> entries d = [] \<Longrightarrow> pickWinner r ch s = Inr (None, s)"
  by (simp add: pickWinner_def)

lemma pickWinner_pick:
  assumes "drawings s ch = Some d" and "entries d \<noteq> []"
    and "w = entries d ! (r mod length (entries d))"
  shows "pickWinner r ch s =
           Inr (Some w,
                s\<lparr>drawings := (drawings s)(ch \<mapsto>
                     d\<lparr>entries := filter (\<lambda>e. e \<noteq> w) (entries d),
                       winners := winners d @ [w]\<rparr>),
                  db := (db s)\<lparr>
                        entries_tbl := filter (\<lambda>row. snd row \<noteq> w) (entries_tbl (db s)),
                        winners_tbl := winners_tbl (db s) @ [(lastTime d, ch, w)]\<rparr>,
                  pending := pending s @ [PushAllowed ch w]\<rparr>)"
  using assms by (simp add: pickWinner_def Let_def remove_tickets_filter)

lemma pick_loop_selects:
  assumes "drawings s ch = Some d"
  shows "\<exists>s' ws. pick_loop rnd n i ch s = Inr s' \<and>
           drawings s' ch = Some (d\<lparr>entries := filter (\<lambda>e. e \<notin> set ws) (entries d),
                                    winners := winners d @ ws\<rparr>) \<and>
           distinct ws \<and> set ws \<subseteq> set (entries d) \<and>
           (\<forall>j<length ws. counter_less (i + j) n \<and>
               ws ! j = (let pool = filter (\<lambda>e. e \<notin> set (take j ws)) (entries d)
                         in pool ! (rnd (i + j) mod length pool))) \<and>
           (\<not> counter_less (i + length ws) n \<or> filter (\<lambda>e. e \<notin> set ws) (entries d) = [])"
  using assms
proof (induction rnd n i ch s arbitrary: d rule: pick_loop.induct)
  case (1 rnd n i ch s)
  show ?case
  proof (cases "counter_less i n \<and> entries d \<noteq> []")
    case False
    then have "pick_loop rnd n i ch s = Inr s"
      using "1.prems" by (auto simp: pick_loop.simps [of rnd n i ch s] pickWinner_empty)
    then show ?thesis
      using False "1.prems" by (intro exI [of _ s] exI [of _ "[]"]) auto
  next
    case True
    define w where "w = entries d ! (rnd i mod length (entries d))"
    define d1 where "d1 = d\<lparr>entries := filter (\<lambda>e. e \<noteq> w) (entries d),
                       winners := winners d @ [w]\<rparr>"
    define s1 where "s1 = s\<lparr>drawings := (drawings s)(ch \<mapsto> d1),
                  db := (db s)\<lparr>
                        entries_tbl := filter (\<lambda>row. snd row \<noteq> w) (entries_tbl (db s)),
                        winners_tbl := winners_tbl (db s) @ [(lastTime d, ch, w)]\<rparr>,
                  pending := pending s @ [PushAllowed ch w]\<rparr>"
    have pw: "pickWinner (rnd i) ch s = Inr (Some w, s1)"
      using "1.prems" True unfolding s1_def d1_def by (intro pickWinner_pick) (auto simp: w_def)
    have win: "w \<in> set (entries d)" using True by (simp add: w_def)
    have d1: "drawings s1 ch = Some d1" by (simp add: s1_def)
    from "1.IH" [OF _ pw refl refl d1] True
    obtain s' ws' where loop: "pick_loop rnd n (Suc i) ch s1 = Inr s'"
      and dr: "drawings s' ch = Some (d1\<lparr>entries := filter (\<lambda>e. e \<notin> set ws') (entries d1),
                                    winners := winners d1 @ ws'\<rparr>)"
      and dist: "distinct ws'" and sub: "set ws' \<subseteq> set (entries d1)"
      and nth: "\<forall>j<length ws'. counter_less (Suc i + j) n \<and>
               ws' ! j = (let pool = filter (\<lambda>e. e \<notin> set (take j ws')) (entries d1)
                         in pool ! (rnd (Suc i + j) mod length pool))"
      and stop: "\<not> counter_less (Suc i + length ws') n \<or> filter (\<lambda>e. e \<notin> set ws') (entries d1) = []"
      by blast
    have ff: "\<And>S. filter (\<lambda>e. e \<notin> S) (entries d1) = filter (\<lambda>e. e \<notin> insert w S) (entries d)"
      by (auto simp: d1_def intro: filter_cong)
    have res: "pick_loop rnd n i ch s = Inr s'"
      using True pw loop by (simp add: pick_loop.simps [of rnd n i ch s])
    have a: "drawings s' ch = Some (d\<lparr>entries := filter (\<lambda>e. e \<notin> set (w # ws')) (entries d),
                                    winners := winners d @ (w # ws')\<rparr>)"
      using dr by (simp add: ff) (simp add: d1_def)
    have b: "distinct (w # ws')" using dist sub by (auto simp: d1_def)
    have c: "set (w # ws') \<subseteq> set (entries d)" using sub win by (auto simp: d1_def)
    have e: "\<forall>j<length (w # ws'). counter_less (i + j) n \<and>
               (w # ws') ! j = (let pool = filter (\<lambda>e. e \<notin> set (take j (w # ws'))) (entries d)
                         in pool ! (rnd (i + j) mod length pool))"
    proof (intro allI impI)
      fix j assume j: "j < length (w # ws')"
      show "counter_less (i + j) n \<and>
               (w # ws') ! j = (let pool = filter (\<lambda>e. e \<notin> set (take j (w # ws'))) (entries d)
                         in pool ! (rnd (i + j) mod length pool))"
      proof (cases j)
        case 0
        then show ?thesis using True by (simp add: w_def Let_def)
      next
        case (Suc k)
        then have "k < length ws'" using j by simp
        with nth have "counter_less (Suc i + k) n \<and>
               ws' ! k = (let pool = filter (\<lambda>e. e \<notin> set (take k ws')) (entries d1)
                         in pool ! (rnd (Suc i + k) mod length pool))" by blast
        then show ?thesis using Suc by (simp add: ff Let_def)
      qed
    qed
    have f: "\<not> counter_less (i + length (w # ws')) n \<or> filter (\<lambda>e. e \<notin> set (w # ws')) (entries d) = []"
      using stop by (simp add: ff)
    show ?thesis
      using res a b c e f by blast
  qed
qed

lemma pickWinner_frame:
  "pickWinner r ch s = Inr (x, s') \<Longrightarrow>
     config s' = config s \<and> channels s' = channels s \<and> chatRooms s' = chatRooms s \<and>
     out s' = out s \<and> steamID s' = steamID s"
  by (auto simp: pickWinner_def Let_def split: option.splits if_splits)

lemma pick_loop_frame:
  "pick_loop rnd n i ch s = Inr s' \<Longrightarrow>
     config s' = config s \<and> channels s' = channels s \<and> chatRooms s' = chatRooms s \<and>
     out s' = out s \<and> steamID s' = steamID s"
proof (induction rnd n i ch s rule: pick_loop.induct)
  case (1 rnd n i ch s)
  show ?case
  proof (cases "counter_less i n")
    case False
    then show ?thesis using "1.prems" by (simp add: pick_loop.simps [of rnd n i ch s])
  next
    case True
    show ?thesis
    proof (cases "pickWinner (rnd i) ch s")
      case (Inl e)
      then show ?thesis using True "1.prems" by (simp add: pick_loop.simps [of rnd n i ch s])
    next
      case (Inr p)
      obtain x s1 where p: "p = (x, s1)" by (cases p)
      show ?thesis
      proof (cases x)
        case None
        then show ?thesis using True "1.prems" Inr p pickWinner_frame [of "rnd i" ch s x s1]
          by (simp add: pick_loop.simps [of rnd n i ch s])
      next
        case (Some w)
        then have "pick_loop rnd n (Suc i) ch s1 = Inr s'"
          using True "1.prems" Inr p by (simp add: pick_loop.simps [of rnd n i ch s])
        from "1.IH" [OF True Inr p [symmetric] Some this]
        show ?thesis using pickWinner_frame [of "rnd i" ch s x s1] Inr p by simp
      qed
    qed
  qed
qed

subsection \<open>The sweep and \<open>closeDrawing\<close> on an open drawing\<close>

lemma kickIfForbidden_result:
  "channels s cid = Some rm \<Longrightarrow>
   kickIfForbidden cid u s =
     Inr (if u \<notin> set (allowedMembers rm) \<and> u \<noteq> steamID s
          then s\<lparr>out := out s @ [Kick cid u]\<rparr> else s)"
  by (simp add: kickIfForbidden_def isAllowed_def indexOf_absent_iff)

lemma kick_each_result:
  "channels s cid = Some rm \<Longrightarrow>
   kick_each cid us s =
     Inr (s\<lparr>out := out s @ map (Kick cid)
            (filter (\<lambda>u. u \<notin> set (allowedMembers rm) \<and> u \<noteq> steamID s) us)\<rparr>)"
proof (induction us arbitrary: s)
  case Nil
  then show ?case by simp
next
  case (Cons u us)
  show ?case
  proof (cases "u \<notin> set (allowedMembers rm) \<and> u \<noteq> steamID s")
    case True
    then have "kick_each cid (u # us) s = kick_each cid us (s\<lparr>out := out s @ [Kick cid u]\<rparr>)"
      using Cons.prems by (simp add: kickIfForbidden_result)
    also have "\<dots> = Inr (s\<lparr>out := out s @ [Kick cid u] @ map (Kick cid)
            (filter (\<lambda>u. u \<notin> set (allowedMembers rm) \<and> u \<noteq> steamID s) us)\<rparr>)"
      using Cons.prems by (subst Cons.IH) simp_all
    finally show ?thesis using True by simp
  next
    case False
    then have "kick_each cid (u # us) s = kick_each cid us s"
      using Cons.prems by (auto simp add: kickIfForbidden_result)
    then show ?thesis using False Cons.IH [OF Cons.prems] by auto
  qed
qed

lemma winnersMsg_ok: "drawings s ch = Some d \<Longrightarrow> \<exists>msg. winnersMsg ch s = Inr msg"
  by (simp add: winnersMsg_def)

lemma closeDrawing_closes:
  assumes d: "drawings s ch = Some d" and op: "open_flag d" and n: "\<not> isNaN n"
    and cc: "map_of (cfg_channels (config s)) ch = Some cc"
    and rm: "channels s (chatID cc) = Some rm"
  shows "\<exists>s' ws. closeDrawing ch uname n now rnd s = Inr s' \<and>
           drawings s' ch = Some (d\<lparr>open_flag := False, lastTime := now,
                                    entries := filter (\<lambda>e. e \<notin> set ws) (entries d),
                                    winners := winners d @ ws\<rparr>) \<and>
           distinct ws \<and> set ws \<subseteq> set (entries d) \<and>
           (\<forall>j<length ws. counter_less j n \<and>
               ws ! j = (let pool = filter (\<lambda>e. e \<notin> set (take j ws)) (entries d)
                         in pool ! (rnd j mod length pool))) \<and>
           (\<not> counter_less (length ws) n \<or> filter (\<lambda>e. e \<notin> set ws) (entries d) = []) \<and>
           out s' =
             out s @
             Say ch (if winners d @ ws = [] then ''The drawing has been closed with no entrants!''
                     else ''The drawing has been closed. The winners are: '' @
                          winners_joined (winners d @ ws) @
                          ''! Please join the chat at steam://friends/joinchat/103582791439961479'') #
             map (Kick (chatID cc))
               (filter (\<lambda>u. u \<notin> set (allowedMembers rm) \<and> u \<noteq> steamID s)
                  (case chatRooms s (chatID cc) of None \<Rightarrow> [] | Some ms \<Rightarrow> ms))"
proof -
  define d1 where "d1 = d\<lparr>open_flag := False, lastTime := now\<rparr>"
  define s1 where "s1 = s\<lparr>drawings := (drawings s)(ch \<mapsto> d1),
                       db := db_set_closed (drawing_id d) now (db s)\<rparr>"
  have d1: "drawings s1 ch = Some d1" by (simp add: s1_def)
  obtain s2 ws where
    loop: "(if length (entries d1) \<noteq> 0 then pick_loop rnd n 0 ch s1 else Inr s1) = Inr s2"
    and dr: "drawings s2 ch = Some (d1\<lparr>entries := filter (\<lambda>e. e \<notin> set ws) (entries d1),
                                    winners := winners d1 @ ws\<rparr>)"
    and ws: "distinct ws" "set ws \<subseteq> set (entries d1)"
      "\<forall>j<length ws. counter_less j n \<and>
               ws ! j = (let pool = filter (\<lambda>e. e \<notin> set (take j ws)) (entries d1)
                         in pool ! (rnd j mod length pool))"
      "\<not> counter_less (length ws) n \<or> filter (\<lambda>e. e \<notin> set ws) (entries d1) = []"
    and fr: "config s2 = config s1" "channels s2 = channels s1"
      "chatRooms s2 = chatRooms s1" "out s2 = out s1" "steamID s2 = steamID s1"
  proof (cases "entries d1 = []")
    case True
    show ?thesis
      by (rule that [of s1 "[]"]) (use True d1 in auto)
  next
    case False
    from pick_loop_selects [OF d1, of rnd n 0]
    obtain s2 ws where l: "pick_loop rnd n 0 ch s1 = Inr s2"
      and r: "drawings s2 ch = Some (d1\<lparr>entries := filter (\<lambda>e. e \<notin> set ws) (entries d1),
                                    winners := winners d1 @ ws\<rparr>)"
        "distinct ws" "set ws \<subseteq> set (entries d1)"
        "\<forall>j<length ws. counter_less (0 + j) n \<and>
               ws ! j = (let pool = filter (\<lambda>e. e \<notin> set (take j ws)) (entries d1)
                         in pool ! (rnd (0 + j) mod length pool))"
        "\<not> counter_less (0 + length ws) n \<or> filter (\<lambda>e. e \<notin> set ws) (entries d1) = []"
      by blast
    show ?thesis
      by (rule that [of s2 ws]) (use False l r pick_loop_frame [OF l] in auto)
  qed
  define msg where
    "msg = (if winners d @ ws = [] then ''The drawing has been closed with no entrants!''
            else ''The drawing has been closed. The winners are: '' @
                 winners_joined (winners d @ ws) @
                 ''! Please join the chat at steam://friends/joinchat/103582791439961479'')"
  have msg: "winnersMsg ch s2 = Inr msg"
    using dr by (simp add: winnersMsg_def msg_def d1_def)
  have cfg2: "map_of (cfg_channels (config s2)) ch = Some cc"
    using fr cc by (simp add: s1_def)
  have rm2: "channels (say ch msg s2) (chatID cc) = Some rm"
    using fr rm by (simp add: s1_def say_def)
  have "closeDrawing ch uname n now rnd s =
          (case (if length (entries d1) \<noteq> 0 then pick_loop rnd n 0 ch s1 else Inr s1) of
             Inl e \<Rightarrow> Inl e
           | Inr s2 \<Rightarrow>
               (case winnersMsg ch s2 of
                  Inl e \<Rightarrow> Inl e
                | Inr msg \<Rightarrow>
                    (case map_of (cfg_channels (config s2)) ch of
                       None \<Rightarrow> Inl TypeError
                     | Some channelConfig \<Rightarrow>
                         kickForbiddenUsers (chatID channelConfig) (say ch msg s2))))"
    using d op n by (simp add: closeDrawing_def Let_def d1_def s1_def)
  also have "\<dots> = kickForbiddenUsers (chatID cc) (say ch msg s2)"
    by (simp only: loop msg cfg2 sum.case option.case)
  also have "\<dots> = Inr ((say ch msg s2)\<lparr>out := out (say ch msg s2) @ map (Kick (chatID cc))
            (filter (\<lambda>u. u \<notin> set (allowedMembers rm) \<and> u \<noteq> steamID (say ch msg s2))
               (case chatRooms (say ch msg s2) (chatID cc) of None \<Rightarrow> [] | Some ms \<Rightarrow> ms))\<rparr>)"
    unfolding kickForbiddenUsers_def by (rule kick_each_result [OF rm2])
  finally have res: "closeDrawing ch uname n now rnd s = Inr ((say ch msg s2)\<lparr>out := out (say ch msg s2) @ map (Kick (chatID cc))
            (filter (\<lambda>u. u \<notin> set (allowedMembers rm) \<and> u \<noteq> steamID (say ch msg s2))
               (case chatRooms (say ch msg s2) (chatID cc) of None \<Rightarrow> [] | Some ms \<Rightarrow> ms))\<rparr>)" .
  show ?thesis
    apply (rule exI, rule exI [of _ ws], rule conjI, rule res)
    using dr ws fr by (simp add: say_def d1_def s1_def msg_def)
qed

lemma pick_loop_once:
  "pick_loop rnd (Finite 1) 0 ch s =
     (case pickWinner (rnd 0) ch s of Inl e \<Rightarrow> Inl e | Inr (x, s') \<Rightarrow> Inr s')"
  by (simp add: pick_loop.simps [of rnd "Finite 1" 0 ch s] pick_loop.simps [of rnd "Finite 1" "Suc 0"]
      split: sum.splits option.splits prod.splits)

subsection \<open>Retracting a winner\<close>

lemma indexOf_less: "x \<in> set xs \<Longrightarrow> indexOf xs x < int (length xs)"
  by (induction xs) (auto simp: Let_def)

lemma splice_js_indexOf:
  "w \<in> set ws \<Longrightarrow> splice_js (indexOf ws w) (Some (Suc 0)) ws = remove1 w ws"
proof (induction ws)
  case Nil
  then show ?case by simp
next
  case (Cons y ys)
  show ?case
  proof (cases "y = w")
    case True
    then show ?thesis by (simp add: splice_js_def)
  next
    case False
    then have in_ys: "w \<in> set ys" using Cons.prems by simp
    then have i: "0 \<le> indexOf ys w" "indexOf ys w < int (length ys)"
      by (simp_all add: indexOf_nonneg_iff indexOf_less)
    have "splice_js (indexOf (y # ys) w) (Some (Suc 0)) (y # ys) =
            y # splice_js (indexOf ys w) (Some (Suc 0)) ys"
      using False i by (simp add: splice_js_def Let_def nat_add_distrib min_def)
    then show ?thesis using False Cons.IH [OF in_ys] by simp
  qed
qed

lemma removeWinner_absent:
  "drawings s ch = Some d \<Longrightarrow> w \<notin> set (winners d) \<Longrightarrow> removeWinner ch w s = Inr (False, s)"
  by (simp add: removeWinner_def indexOf_absent_iff)

lemma removeWinner_present:
  assumes "drawings s ch = Some d" and "w \<in> set (winners d)"
  shows "removeWinner ch w s =
           Inr (True,
                s\<lparr>drawings := (drawings s)(ch \<mapsto> d\<lparr>winners := remove1 w (winners d)\<rparr>),
                  db := (db s)\<lparr>winners_tbl :=
                          filter (\<lambda>(t, c, u). \<not> (u = w \<and> t = lastTime d))
                            (winners_tbl (db s))\<rparr>,
                  pending := pending s @ [SpliceAllowed ch w]\<rparr>)"
  using assms by (simp add: removeWinner_def Let_def indexOf_absent_iff splice_js_indexOf)

subsection \<open>Rooms after construction, and what \<open>!quit\<close> leaves\<close>

lemma rooms_of_config:
  assumes "(ch, cc) \<in> set cs" and "distinct (map (chatID \<circ> snd) cs)"
  shows "foldl (\<lambda>m (k, c). m(chatID c \<mapsto>
                   \<lparr>allowedMembers = [mainUser c], state = Joining, key = k\<rparr>)) m0 cs (chatID cc) =
           Some \<lparr>allowedMembers = [mainUser cc], state = Joining, key = ch\<rparr>"
  using assms
proof (induction cs arbitrary: m0 rule: rev_induct)
  case Nil
  then show ?case by simp
next
  case (snoc x xs)
  obtain k c where x: "x = (k, c)" by (cases x)
  show ?case
  proof (cases "(ch, cc) = x")
    case True
    then show ?thesis using x by simp
  next
    case False
    then have mem: "(ch, cc) \<in> set xs" using snoc.prems by simp
    have d: "distinct (map (chatID \<circ> snd) xs)" using snoc.prems by (simp add: comp_def)
    have "chatID c \<noteq> chatID cc"
    proof
      assume "chatID c = chatID cc"
      moreover have "chatID cc \<in> set (map (chatID \<circ> snd) xs)" using mem by force
      ultimately show False using snoc.prems(2) x by simp
    qed
    then show ?thesis using snoc.IH [OF mem d] x by simp
  qed
qed

lemma quit_keeps_pool:
  "quit ch user s = Inl TypeError \<or> (\<exists>s'. quit ch user s = Inr s' \<and> drawings s' = drawings s)"
  by (auto simp: quit_def split: option.splits)

subsection \<open>The pool holds no winner while each command is served to its end\<close>

text \<open>
  In \<open>run\<close>, where the callbacks of a command are served before the next command
  arrives, every command and every membership event keeps \<open>pool_free_of_winners\<close>
  when no callback is pending at its start; so does the first load on a database without
  a row for the channel, and the constructed object has the property and nothing pending.
  A load of stored data can break it, and so can a \<open>!play\<close> whose callback is served
  after the drawing has been closed: the handler tests whether the drawing is open, the
  callback does not.
\<close>

lemma pool_freeD: "pool_free_of_winners s \<Longrightarrow> drawings s ch = Some d \<Longrightarrow> drawing_ok d"
  by (simp add: pool_free_of_winners_def)

lemma pool_free_same: "drawings s' = drawings s \<Longrightarrow> pool_free_of_winners s \<Longrightarrow> pool_free_of_winners s'"
  by (simp add: pool_free_of_winners_def)

lemma pool_free_upd:
  "drawings s' = (drawings s)(ch \<mapsto> d') \<Longrightarrow> drawing_ok d' \<Longrightarrow> pool_free_of_winners s \<Longrightarrow>
   pool_free_of_winners s'"
  by (simp add: pool_free_of_winners_def)

lemma add_tickets_drawings:
  "drawings s ch = Some d \<Longrightarrow>
   \<exists>s'. add_tickets k ch u s = Inr s' \<and> pending s' = pending s \<and>
        drawings s' = (drawings s)(ch \<mapsto> d\<lparr>entries := entries d @ replicate k u\<rparr>)"
proof (induction k arbitrary: s d)
  case 0
  then have "(drawings s)(ch \<mapsto> d) = drawings s" by (simp add: fun_upd_idem)
  then show ?case by simp
next
  case (Suc k)
  define s1 where "s1 = s\<lparr>drawings := (drawings s)(ch \<mapsto> d\<lparr>entries := entries d @ [u]\<rparr>),
               db := (db s)\<lparr>entries_tbl := entries_tbl (db s) @ [(drawing_id d, u)]\<rparr>\<rparr>"
  have "drawings s1 ch = Some (d\<lparr>entries := entries d @ [u]\<rparr>)" by (simp add: s1_def)
  from Suc.IH [OF this] obtain s' where a: "add_tickets k ch u s1 = Inr s'"
    and c: "pending s' = pending s1"
    and b: "drawings s' = (drawings s1)(ch \<mapsto>
              d\<lparr>entries := entries d @ [u]\<rparr>\<lparr>entries :=
                 entries (d\<lparr>entries := entries d @ [u]\<rparr>) @ replicate k u\<rparr>)"
    by blast
  have "add_tickets (Suc k) ch u s = Inr s'"
    using a Suc.prems by (simp add: s1_def)
  moreover have "drawings s' = (drawings s)(ch \<mapsto> d\<lparr>entries := entries d @ replicate (Suc k) u\<rparr>)"
    using b by (simp add: s1_def)
  moreover have "pending s' = pending s" using c by (simp add: s1_def)
  ultimately show ?case by blast
qed

lemma enterDrawing_keeps:
  assumes inv: "pool_free_of_winners s" and d: "drawings s ch = Some d" and nw: "winners d = []"
  shows "\<exists>s'. enterDrawing ch user s = Inr s' \<and> pool_free_of_winners s' \<and> pending s' = pending s"
proof -
  define k where "k = (if subscriber user then subMultiplier (config s) else 1)"
  from add_tickets_drawings [OF d, of k "user_name user"]
  obtain s' where a: "add_tickets k ch (user_name user) s = Inr s'"
    and p: "pending s' = pending s"
    and upd: "drawings s' = (drawings s)(ch \<mapsto> d\<lparr>entries := entries d @ replicate k (user_name user)\<rparr>)"
    by blast
  have "drawing_ok (d\<lparr>entries := entries d @ replicate k (user_name user)\<rparr>)"
    using nw by (simp add: drawing_ok_def)
  with upd have "pool_free_of_winners s'" using inv by (rule pool_free_upd)
  then show ?thesis using a p by (simp add: enterDrawing_def k_def)
qed

lemma add_tickets_pending: "add_tickets k ch u s = Inr s' \<Longrightarrow> pending s' = pending s"
proof (induction k arbitrary: s)
  case 0
  then show ?case by simp
next
  case (Suc k)
  then show ?case by (auto split: option.splits)
qed

lemma run_callback_pending: "pending (run_callback c s) = pending s"
  by (cases c)
    (auto simp: whisper_def enterDrawing_def Let_def
      split: list.splits option.splits sum.splits dest: add_tickets_pending)

lemma run_callback_drawings: "\<not> is_enter c \<Longrightarrow> drawings (run_callback c s) = drawings s"
  by (cases c) (auto split: list.splits option.splits)

lemma enter_callback_keeps:
  assumes inv: "pool_free_of_winners s" and d: "drawings s ch = Some d" and nw: "winners d = []"
  shows "pool_free_of_winners (run_callback (EnterStored ch user) s)"
    and "pool_free_of_winners (run_callback (EnterFetched ch user sid) s)"
proof -
  have same: "pool_free_of_winners (whisper u m s)" for u m
    using inv by (simp add: pool_free_of_winners_def whisper_def)
  have upd: "pool_free_of_winners (s\<lparr>db := x\<rparr>)" for x
    using inv by (simp add: pool_free_of_winners_def)
  have ent: "pool_free_of_winners (case enterDrawing ch user t of Inl e \<Rightarrow> t | Inr s' \<Rightarrow> s')"
    if "pool_free_of_winners t" and "drawings t ch = Some d" for t
    using enterDrawing_keeps [OF that nw, of user] by auto
  show "pool_free_of_winners (run_callback (EnterStored ch user) s)"
    using same ent [OF inv d] d by simp
  show "pool_free_of_winners (run_callback (EnterFetched ch user sid) s)"
    using upd ent [of "s\<lparr>db := x\<rparr>" for x] d by (simp add: Let_def)
qed

lemma foldl_callbacks_pending:
  "pending (foldl (\<lambda>t c. run_callback c t) t cs) = pending t"
  by (induction cs arbitrary: t) (simp_all add: run_callback_pending)

lemma settle_pending: "pending (settle s) = []"
  by (simp add: settle_def foldl_callbacks_pending)

lemma foldl_callbacks_drawings:
  "filter is_enter cs = [] \<Longrightarrow> drawings (foldl (\<lambda>t c. run_callback c t) t cs) = drawings t"
proof (induction cs arbitrary: t)
  case Nil
  then show ?case by simp
next
  case (Cons c cs)
  then have "\<not> is_enter c" and "filter is_enter cs = []" by (auto split: if_splits)
  then show ?case using Cons.IH by (simp add: run_callback_drawings)
qed

lemma settle_drawings: "filter is_enter (pending s) = [] \<Longrightarrow> drawings (settle s) = drawings s"
  by (simp add: settle_def foldl_callbacks_drawings)

lemma kickIfForbidden_drawings:
  "kickIfForbidden cid u s = Inr s' \<Longrightarrow> drawings s' = drawings s \<and> pending s' = pending s"
  by (auto simp: kickIfForbidden_def split: sum.splits if_splits)

lemma kick_each_drawings:
  "kick_each cid us s = Inr s' \<Longrightarrow> drawings s' = drawings s \<and> pending s' = pending s"
proof (induction us arbitrary: s)
  case Nil
  then show ?case by simp
next
  case (Cons u us)
  then show ?case
    by (auto split: sum.splits dest: kickIfForbidden_drawings)
qed

lemma pickWinner_drawings:
  assumes "pickWinner r ch s = Inr (x, s')"
  shows "(x = None \<and> s' = s) \<or>
         (\<exists>d w. x = Some w \<and> drawings s ch = Some d \<and> w \<in> set (entries d) \<and>
            pending s' = pending s @ [PushAllowed ch w] \<and>
            drawings s' = (drawings s)(ch \<mapsto>
              d\<lparr>entries := filter (\<lambda>e. e \<noteq> w) (entries d), winners := winners d @ [w]\<rparr>))"
proof (cases "drawings s ch")
  case None
  then show ?thesis using assms by (simp add: pickWinner_def)
next
  case (Some d)
  show ?thesis
  proof (cases "entries d = []")
    case True
    then show ?thesis using assms Some by (simp add: pickWinner_empty)
  next
    case False
    then have "entries d ! (r mod length (entries d)) \<in> set (entries d)" by simp
    then show ?thesis
      using assms Some False
      by (simp add: pickWinner_pick [OF Some False refl]) auto
  qed
qed

lemma pickWinner_keeps:
  assumes pw: "pickWinner r ch s = Inr (x, s')" and inv: "pool_free_of_winners s"
    and closed: "\<And>d. drawings s ch = Some d \<Longrightarrow> \<not> open_flag d"
  shows "pool_free_of_winners s' \<and> (\<forall>d. drawings s' ch = Some d \<longrightarrow> \<not> open_flag d) \<and>
         filter is_enter (pending s') = filter is_enter (pending s)"
proof -
  from pickWinner_drawings [OF pw] show ?thesis
  proof
    assume "x = None \<and> s' = s"
    then show ?thesis using inv closed by simp
  next
    assume "\<exists>d w. x = Some w \<and> drawings s ch = Some d \<and> w \<in> set (entries d) \<and>
            pending s' = pending s @ [PushAllowed ch w] \<and>
            drawings s' = (drawings s)(ch \<mapsto>
              d\<lparr>entries := filter (\<lambda>e. e \<noteq> w) (entries d), winners := winners d @ [w]\<rparr>)"
    then obtain d w where d: "drawings s ch = Some d"
      and pe: "pending s' = pending s @ [PushAllowed ch w]"
      and upd: "drawings s' = (drawings s)(ch \<mapsto>
              d\<lparr>entries := filter (\<lambda>e. e \<noteq> w) (entries d), winners := winners d @ [w]\<rparr>)"
      by blast
    have ok: "drawing_ok d" by (rule pool_freeD [OF inv d])
    have nopen: "\<not> open_flag d" by (rule closed [OF d])
    have "drawing_ok (d\<lparr>entries := filter (\<lambda>e. e \<noteq> w) (entries d), winners := winners d @ [w]\<rparr>)"
      using ok nopen by (auto simp: drawing_ok_def)
    from pool_free_upd [OF upd this inv] upd nopen pe show ?thesis by simp
  qed
qed

lemma pick_loop_keeps:
  assumes "pick_loop rnd n i ch s = Inr s'" and "pool_free_of_winners s"
    and "\<And>d. drawings s ch = Some d \<Longrightarrow> \<not> open_flag d"
  shows "pool_free_of_winners s' \<and> filter is_enter (pending s') = filter is_enter (pending s)"
  using assms
proof (induction rnd n i ch s rule: pick_loop.induct)
  case (1 rnd n i ch s)
  show ?case
  proof (cases "counter_less i n")
    case False
    then show ?thesis using "1.prems"(1,2) by (simp add: pick_loop.simps [of rnd n i ch s])
  next
    case True
    show ?thesis
    proof (cases "pickWinner (rnd i) ch s")
      case (Inl e)
      then show ?thesis using True "1.prems"(1) by (simp add: pick_loop.simps [of rnd n i ch s])
    next
      case (Inr p)
      obtain x s1 where p: "p = (x, s1)" by (cases p)
      have pw: "pickWinner (rnd i) ch s = Inr (x, s1)" using Inr p by simp
      have inv1: "pool_free_of_winners s1"
        and closed1: "\<And>d. drawings s1 ch = Some d \<Longrightarrow> \<not> open_flag d"
        and pe1: "filter is_enter (pending s1) = filter is_enter (pending s)"
        using pickWinner_keeps [OF pw "1.prems"(2,3)] by simp_all
      show ?thesis
      proof (cases x)
        case None
        then have "s' = s1"
          using True "1.prems"(1) Inr p by (simp add: pick_loop.simps [of rnd n i ch s])
        then show ?thesis using inv1 pe1 by simp
      next
        case (Some w)
        then have "pick_loop rnd n (Suc i) ch s1 = Inr s'"
          using True "1.prems"(1) Inr p by (simp add: pick_loop.simps [of rnd n i ch s])
        then have "pool_free_of_winners s' \<and>
                   filter is_enter (pending s') = filter is_enter (pending s1)"
          using inv1 closed1 by (rule "1.IH" [OF True Inr p [symmetric] Some])
        then show ?thesis using pe1 by simp
      qed
    qed
  qed
qed

lemma closeDrawing_keeps:
  assumes cd: "closeDrawing ch uname n now rnd s = Inr s'" and inv: "pool_free_of_winners s"
  shows "pool_free_of_winners s' \<and> filter is_enter (pending s') = filter is_enter (pending s)"
proof (cases "drawings s ch")
  case None
  then show ?thesis using cd by (simp add: closeDrawing_def)
next
  case (Some d)
  show ?thesis
  proof (cases "open_flag d \<and> \<not> isNaN n")
    case False
    then have "drawings s' = drawings s \<and> pending s' = pending s"
      using cd Some
      by (auto simp: closeDrawing_def whisper_def drawingUsage_def split: if_splits)
    then show ?thesis using inv pool_free_same by simp
  next
    case True
    define s1 where "s1 = s\<lparr>drawings := (drawings s)(ch \<mapsto> d\<lparr>open_flag := False, lastTime := now\<rparr>),
                       db := db_set_closed (drawing_id d) now (db s)\<rparr>"
    have "drawing_ok (d\<lparr>open_flag := False, lastTime := now\<rparr>)"
      using pool_freeD [OF inv Some] by (simp add: drawing_ok_def)
    then have inv1: "pool_free_of_winners s1"
      using inv by (intro pool_free_upd [of s1 s ch "d\<lparr>open_flag := False, lastTime := now\<rparr>"])
        (simp_all add: s1_def)
    have closed1: "\<And>d'. drawings s1 ch = Some d' \<Longrightarrow> \<not> open_flag d'"
      by (auto simp: s1_def)
    have pe1: "pending s1 = pending s" by (simp add: s1_def)
    have "\<exists>s2. (if entries d \<noteq> [] then pick_loop rnd n 0 ch s1 else Inr s1) = Inr s2 \<and>
            drawings s' = drawings s2 \<and> pending s' = pending s2"
      using cd Some True unfolding s1_def
      by (cases "entries d = []")
        (auto simp: closeDrawing_def Let_def kickForbiddenUsers_def say_def
          split: sum.splits option.splits dest!: kick_each_drawings)
    then obtain s2 where
      l: "(if entries d \<noteq> [] then pick_loop rnd n 0 ch s1 else Inr s1) = Inr s2"
      and k: "drawings s' = drawings s2" and pe: "pending s' = pending s2"
      by blast
    have inv2: "pool_free_of_winners s2 \<and>
                filter is_enter (pending s2) = filter is_enter (pending s1)"
    proof (cases "entries d \<noteq> []")
      case True
      then have "pick_loop rnd n 0 ch s1 = Inr s2" using l by simp
      then show ?thesis using inv1 closed1 by (rule pick_loop_keeps)
    next
      case False
      then show ?thesis using l inv1 by simp
    qed
    from k inv2 pe pe1 pool_free_same show ?thesis by simp
  qed
qed

lemma openDrawing_keeps:
  assumes od: "openDrawing ch uname s = Inr s'" and inv: "pool_free_of_winners s"
  shows "pool_free_of_winners s' \<and> pending s' = pending s"
proof (cases "drawings s ch")
  case None
  then show ?thesis using od by (simp add: openDrawing_def)
next
  case (Some d)
  show ?thesis
  proof (cases "open_flag d")
    case True
    then have "drawings s' = drawings s \<and> pending s' = pending s"
      using od Some by (auto simp: openDrawing_def whisper_def)
    then show ?thesis using inv pool_free_same by simp
  next
    case False
    then have upd: "drawings s' = (drawings s)(ch \<mapsto> d\<lparr>open_flag := True, winners := [], entries := []\<rparr>)"
      and pe: "pending s' = pending s"
      using od Some by (auto simp: openDrawing_def Let_def openDrawingMsg_def say_def)
    have "drawing_ok (d\<lparr>open_flag := True, winners := [], entries := []\<rparr>)"
      by (simp add: drawing_ok_def)
    with upd have "pool_free_of_winners s'" using inv by (rule pool_free_upd)
    then show ?thesis using pe by simp
  qed
qed

lemma removeWinner_drawings:
  assumes "removeWinner ch w s = Inr (b, s')"
  shows "(\<not> b \<and> s' = s) \<or>
         (\<exists>d. b \<and> drawings s ch = Some d \<and> w \<in> set (winners d) \<and>
            pending s' = pending s @ [SpliceAllowed ch w] \<and>
            drawings s' = (drawings s)(ch \<mapsto> d\<lparr>winners := remove1 w (winners d)\<rparr>))"
proof (cases "drawings s ch")
  case None
  then show ?thesis using assms by (simp add: removeWinner_def)
next
  case (Some d)
  show ?thesis
  proof (cases "w \<in> set (winners d)")
    case True
    then show ?thesis using assms Some by (simp add: removeWinner_present [OF Some True]) auto
  next
    case False
    then show ?thesis using assms Some by (simp add: removeWinner_absent)
  qed
qed

lemma rerollDrawing_keeps:
  assumes rr: "rerollDrawing ch uname w r s = Inr s'" and inv: "pool_free_of_winners s"
  shows "pool_free_of_winners s' \<and> filter is_enter (pending s') = filter is_enter (pending s)"
proof (cases w)
  case None
  then have "drawings s' = drawings s \<and> pending s' = pending s"
    using rr by (auto simp: rerollDrawing_def drawingUsage_def whisper_def)
  then show ?thesis using inv pool_free_same by simp
next
  case (Some v)
  show ?thesis
  proof (cases "removeWinner ch v s")
    case (Inl e)
    then show ?thesis using rr Some by (simp add: rerollDrawing_def)
  next
    case (Inr p)
    obtain b s1 where p: "p = (b, s1)" by (cases p)
    have rw: "removeWinner ch v s = Inr (b, s1)" using Inr p by simp
    show ?thesis
    proof (cases b)
      case False
      then have "s1 = s" using removeWinner_drawings [OF rw] by auto
      then have "drawings s' = drawings s \<and> pending s' = pending s"
        using rr Some rw False by (auto simp: rerollDrawing_def whisper_def)
      then show ?thesis using inv pool_free_same by simp
    next
      case True
      then obtain d where d: "drawings s ch = Some d" "v \<in> set (winners d)"
        and pe1: "pending s1 = pending s @ [SpliceAllowed ch v]"
        and d1: "drawings s1 = (drawings s)(ch \<mapsto> d\<lparr>winners := remove1 v (winners d)\<rparr>)"
        using removeWinner_drawings [OF rw] by auto
      have ok: "drawing_ok d" by (rule pool_freeD [OF inv d(1)])
      then have nopen: "\<not> open_flag d" using d(2) by (auto simp: drawing_ok_def)
      have "drawing_ok (d\<lparr>winners := remove1 v (winners d)\<rparr>)"
        using ok nopen set_remove1_subset [of v "winners d"] by (auto simp: drawing_ok_def)
      with d1 have inv1: "pool_free_of_winners s1" using inv by (rule pool_free_upd)
      have closed1: "\<And>d'. drawings s1 ch = Some d' \<Longrightarrow> \<not> open_flag d'"
        using d1 nopen by auto
      from rr Some rw True obtain x s2 where pw: "pickWinner r ch s1 = Inr (x, s2)"
        and out: "drawings s' = drawings s2" and pe: "pending s' = pending s2"
        by (auto simp: rerollDrawing_def say_def split: sum.splits option.splits)
      from pickWinner_keeps [OF pw inv1 closed1]
      have "pool_free_of_winners s2"
        and "filter is_enter (pending s2) = filter is_enter (pending s1)" by simp_all
      with out pe pe1 pool_free_same show ?thesis by simp
    qed
  qed
qed

lemma play_served:
  assumes pl: "play ch user args s = Inr s1" and inv: "pool_free_of_winners s"
    and quiet: "pending s = []"
  shows "pool_free_of_winners (settle s1)"
proof (cases "drawings s ch")
  case None
  then show ?thesis using pl by (simp add: play_def)
next
  case (Some d)
  have ok: "drawing_ok d" by (rule pool_freeD [OF inv Some])
  have inv0: "pool_free_of_winners (s\<lparr>pending := []\<rparr>)"
    using inv by (simp add: pool_free_of_winners_def)
  have d0: "drawings (s\<lparr>pending := []\<rparr>) ch = Some d" using Some by simp
  show ?thesis
  proof (cases "open_flag d")
    case False
    then have "s1 = whisper (user_name user) ''There is no open drawing!'' s"
      using pl Some by (simp add: play_def)
    then show ?thesis
      using inv quiet by (simp add: settle_def whisper_def pool_free_of_winners_def)
  next
    case True
    then have nw: "winners d = []" using ok by (simp add: drawing_ok_def)
    show ?thesis
    proof (cases args)
      case NoLink
      then have "settle s1 = run_callback (EnterStored ch user) (s\<lparr>pending := []\<rparr>)"
        using pl Some True quiet by (auto simp: play_def settle_def)
      then show ?thesis using enter_callback_keeps(1) [OF inv0 d0 nw, of user] by (simp only:)
    next
      case (Link r)
      show ?thesis
      proof (cases r)
        case None
        then have "s1 = s" using pl Some True Link by (simp add: play_def)
        then show ?thesis using inv0 quiet by (simp add: settle_def)
      next
        case (Some sid)
        then have "settle s1 = run_callback (EnterFetched ch user sid) (s\<lparr>pending := []\<rparr>)"
          using pl \<open>drawings s ch = Some d\<close> True Link quiet by (auto simp: play_def settle_def)
        then show ?thesis
          using enter_callback_keeps(2) [OF inv0 d0 nw, of user sid] by (simp only:)
      qed
    qed
  qed
qed

lemma step_keeps:
  assumes st: "step ch ev s = Inr s'" and inv: "pool_free_of_winners s"
    and quiet: "pending s = []" and ev: "ev \<noteq> InitializedDb"
  shows "pool_free_of_winners s' \<and> pending s' = []"
proof -
  from st obtain s1 where h: "handle ch ev s = Inr s1" and s': "s' = settle s1"
    by (auto simp: step_def split: sum.splits)
  have pe: "pending s' = []" using s' by (simp add: settle_pending)
  have other: "pool_free_of_winners s'"
    if "pool_free_of_winners s1 \<and> filter is_enter (pending s1) = filter is_enter (pending s)"
    using that quiet s' by (simp add: pool_free_of_winners_def settle_drawings)
  have "pool_free_of_winners s'"
  proof (cases ev)
    case (DrawOpen u)
    then show ?thesis using h inv openDrawing_keeps [of ch u s s1] by (intro other) simp
  next
    case (DrawClose u n now rnd)
    then show ?thesis using h inv closeDrawing_keeps [of ch u n now rnd s s1] by (intro other) simp
  next
    case (DrawReroll u w r)
    then show ?thesis using h inv rerollDrawing_keeps [of ch u w r s s1] by (intro other) simp
  next
    case (PlayCmd user)
    then show ?thesis using h inv quiet s' play_served [of ch user NoLink s s1] by simp
  next
    case (PlayLinkCmd user r)
    then show ?thesis using h inv quiet s' play_served [of ch user "Link r" s s1] by simp
  next
    case (QuitCmd user)
    then have "drawings s1 = drawings s \<and> pending s1 = pending s"
      using h by (auto simp: quit_def split: option.splits if_splits)
    then show ?thesis using inv by (intro other) (simp add: pool_free_of_winners_def)
  next
    case InitializedDb
    then show ?thesis using ev by simp
  next
    case (ChatStateChange c u cid b)
    then have "drawings s1 = drawings s \<and> pending s1 = pending s"
      using h
      by (auto simp: steamStateChanged_def split: option.splits EChatMemberStateChange.splits
          dest: kickIfForbidden_drawings)
    then show ?thesis using inv by (intro other) (simp add: pool_free_of_winners_def)
  next
    case (Served i)
    then have "s1 = s" using h quiet by (simp add: serve_def)
    then show ?thesis using inv by (intro other) simp
  qed
  then show ?thesis using pe by simp
qed

lemma run_keeps:
  assumes "run ch evs s = Inr s'" and "pool_free_of_winners s" and "pending s = []"
    and "InitializedDb \<notin> set evs"
  shows "pool_free_of_winners s' \<and> pending s' = []"
  using assms
proof (induction evs arbitrary: s)
  case Nil
  then show ?case by simp
next
  case (Cons ev evs)
  from Cons.prems(1) obtain s1 where h: "step ch ev s = Inr s1"
    and r: "run ch evs s1 = Inr s'"
    by (auto split: sum.splits)
  have "pool_free_of_winners s1 \<and> pending s1 = []"
    using step_keeps [OF h Cons.prems(2,3)] Cons.prems(4) by auto
  then show ?case using Cons.IH [OF r] Cons.prems(4) by simp
qed

lemma constructor_drawings:
  "foldl (\<lambda>m (k, c). m(k \<mapsto>
      \<lparr>open_flag = False, winners = [], entries = [], lastTime = -1, drawing_id = None\<rparr>)) m0 cs ch
     = Some d \<Longrightarrow>
   m0 ch = Some d \<or>
   d = \<lparr>open_flag = False, winners = [], entries = [], lastTime = -1, drawing_id = None\<rparr>"
proof (induction cs arbitrary: m0)
  case Nil
  then show ?case by simp
next
  case (Cons x xs)
  obtain k c where x: "x = (k, c)" by (cases x)
  from Cons.IH [of "m0(k \<mapsto>
      \<lparr>open_flag = False, winners = [], entries = [], lastTime = -1, drawing_id = None\<rparr>)"]
    Cons.prems x
  show ?case by (auto split: if_splits)
qed

lemma constructor_pool_free:
  "pool_free_of_winners (constructor cfg store botID present) \<and>
   pending (constructor cfg store botID present) = []"
  unfolding pool_free_of_winners_def constructor_def
  by (auto dest!: constructor_drawings simp: drawing_ok_def)

lemma first_load_keeps:
  assumes il: "initialized_db ch s = Inr s'" and inv: "pool_free_of_winners s"
    and fresh: "filter (\<lambda>(j, c, b, t). c = ch) (drawings_tbl (db s)) = []"
  shows "pool_free_of_winners s' \<and> pending s' = pending s"
proof (cases "drawings s ch")
  case None
  then show ?thesis using il by (simp add: initialized_db_def)
next
  case (Some d)
  then have upd: "drawings s' = (drawings s)(ch \<mapsto>
      d\<lparr>drawing_id := Some (Suc (foldr max (map fst (drawings_tbl (db s))) 0))\<rparr>)"
    and pe: "pending s' = pending s"
    using il fresh by (auto simp: initialized_db_def Let_def)
  have "drawing_ok (d\<lparr>drawing_id := Some (Suc (foldr max (map fst (drawings_tbl (db s))) 0))\<rparr>)"
    using pool_freeD [OF inv Some] by (simp add: drawing_ok_def)
  with upd have "pool_free_of_winners s'" using inv by (rule pool_free_upd)
  then show ?thesis using pe by simp
qed

lemma pool_free_other_winners:
  "pool_free_of_winners s \<Longrightarrow> drawings s ch = Some d \<Longrightarrow>
   set (entries d) \<inter> (set (winners d) - {w}) = {}"
  using pool_freeD [of s ch d] by (auto simp: drawing_ok_def)

text \<open>
  The round \<open>late_entry_round\<close>, run with its callbacks served when the \<open>Served\<close>
  events say: the second \<open>!play\<close> of \<open>b\<close> passes the test of the handler while the
  drawing is open; the close makes \<open>a\<close> and \<open>b\<close> winners and empties the pool; the
  callback then finds \<open>b\<close> absent from the pool and enters \<open>b\<close> into the closed
  drawing. A reroll of \<open>a\<close> then picks \<open>b\<close>, a winner already.
\<close>

lemma late_entry_after_close:
  "open_of ''#demo'' (run_deferred ''#demo'' late_entry_round demo_start) = Some False \<and>
   winners_of ''#demo'' (run_deferred ''#demo'' late_entry_round demo_start) =
     Some [''a'', ''b''] \<and>
   entries_of ''#demo'' (run_deferred ''#demo'' late_entry_round demo_start) = Some [''b''] \<and>
   winners_of ''#demo''
     (run_deferred ''#demo'' (late_entry_round @ [DrawReroll ''mod'' (Some ''a'') 0])
        demo_start) =
     Some [''b'', ''b'']"
  by code_simp

text \<open>
  The round \<open>link_round\<close>: the user without an id is asked for a link and is not
  entered; nothing happens when the profile cannot be fetched; the first link that yields
  an id stores it and enters the user; the next one replaces the id and does not enter
  the user again; \<open>a\<close> gets the new id, is entered once, and is told so at the next
  \<open>!play\<close>.
\<close>

lemma play_with_link:
  "entries_of ''#demo'' (run ''#demo'' (take 4 link_round) demo_start) = Some [] \<and>
   entries_of ''#demo'' (run ''#demo'' (take 5 link_round) demo_start) = Some [''e''] \<and>
   entries_of ''#demo'' (run ''#demo'' (take 6 link_round) demo_start) = Some [''e''] \<and>
   entries_of ''#demo'' (run ''#demo'' link_round demo_start) = Some [''e'', ''a''] \<and>
   stored_entries_of (run ''#demo'' link_round demo_start) =
     Some [(Some 1, ''e''), (Some 1, ''a'')] \<and>
   map_option users (db_of (run ''#demo'' link_round demo_start)) =
     Some [(''a'', ''sa2''), (''b'', ''sb''), (''c'', ''sc''), (''d'', ''sd''), (''e'', ''se2'')] \<and>
   out_of (run ''#demo'' link_round demo_start) =
     Some [Say ''#demo''
             ''There is now an open drawing! Type !play <link to steam profile> to enter!'',
           Whisper ''e''
             ''Append a link to your steam profile to enter the drawing (e.g. !play steamcommunity.com/id/resonancesteam)'',
           Whisper ''a'' ''You are already in the drawing!'']"
  by code_simp

subsection \<open>Claims\<close>

text \<open>
  C1. A membership event \<open>Entered\<close> for a known room issues a kick for exactly the entering
  member when that member is neither in the room's allow-list nor the bot itself, and
  changes nothing (issues no kick) when the member is in the allow-list or is the bot.
\<close>

theorem entered_kicks_exactly_the_forbidden:
  assumes "channels s cid = Some rm"
  shows "steamStateChanged Entered userID cid byID s =
           Inr (if userID \<notin> set (allowedMembers rm) \<and> userID \<noteq> steamID s
                then s\<lparr>out := out s @ [Kick cid userID]\<rparr> else s)"
  using assms
  by (simp add: steamStateChanged_def kickIfForbidden_def isAllowed_def indexOf_absent_iff)

theorem entered_kicks_witness:
  "channels demo_start ''c1'' =
     Some \<lparr>allowedMembers = [''m''], state = Joining, key = ''#demo''\<rparr> \<and>
   steamStateChanged Entered ''sx'' ''c1'' ''sx'' demo_start =
     Inr (demo_start\<lparr>out := out demo_start @ [Kick ''c1'' ''sx'']\<rparr>) \<and>
   steamStateChanged Entered ''m'' ''c1'' ''m'' demo_start = Inr demo_start \<and>
   steamStateChanged Entered ''bot'' ''c1'' ''bot'' demo_start = Inr demo_start"
proof -
  have r: "channels demo_start ''c1'' =
             Some \<lparr>allowedMembers = [''m''], state = Joining, key = ''#demo''\<rparr>"
    by (simp add: demo_start_def constructor_def demo_config_def)
  have b: "steamID demo_start = ''bot''"
    by (simp add: demo_start_def constructor_def)
  show ?thesis
    using r b entered_kicks_exactly_the_forbidden [OF r, of "''sx''" "''sx''"]
      entered_kicks_exactly_the_forbidden [OF r, of "''m''" "''m''"]
      entered_kicks_exactly_the_forbidden [OF r, of "''bot''" "''bot''"]
    by simp
qed

text \<open>
  C2. After a close the allow-list is the main member with the Steam ids of the winners,
  as recomputed from the main member, the winners and the stored identities. A reroll
  breaks this: replacing \<open>a\<close> by \<open>c\<close> in the winners \<open>[a, b]\<close> splices the allow-list from
  the position of \<open>a\<close> to its end, so the remaining winner \<open>b\<close> is removed with it; the
  allow-list is \<open>[m, sc]\<close> where the main member and the winners \<open>b\<close>, \<open>c\<close> give
  \<open>{m, sb, sc}\<close>. This is so in a round played from a fresh start and in a close and a
  reroll after a reload of an open drawing.
\<close>

theorem reroll_drops_other_winner:
  "winners_of ''#demo'' (run ''#demo'' three_entrant_round demo_start) = Some [''a'', ''b''] \<and>
   allowed_of ''c1'' (run ''#demo'' three_entrant_round demo_start) = Some [''m'', ''sa'', ''sb''] \<and>
   recomputed_of ''#demo'' (run ''#demo'' three_entrant_round demo_start) = Some [''m'', ''sa'', ''sb''] \<and>
   winners_of ''#demo''
     (run ''#demo'' (three_entrant_round @ [DrawReroll ''mod'' (Some ''a'') 0]) demo_start) =
     Some [''b'', ''c''] \<and>
   allowed_of ''c1''
     (run ''#demo'' (three_entrant_round @ [DrawReroll ''mod'' (Some ''a'') 0]) demo_start) =
     Some [''m'', ''sc''] \<and>
   recomputed_of ''#demo''
     (run ''#demo'' (three_entrant_round @ [DrawReroll ''mod'' (Some ''a'') 0]) demo_start) =
     Some [''m'', ''sb'', ''sc''] \<and>
   set [''m'', ''sc''] \<noteq> set [''m'', ''sb'', ''sc''] \<and>
   winners_of ''#demo''
     (run ''#demo'' [InitializedDb, DrawClose ''mod'' (Finite 2) 1000 (always 0)] demo_reloaded) =
     Some [''a'', ''b''] \<and>
   allowed_of ''c1''
     (run ''#demo'' [InitializedDb, DrawClose ''mod'' (Finite 2) 1000 (always 0)] demo_reloaded) =
     Some [''m'', ''sa'', ''sb''] \<and>
   winners_of ''#demo''
     (run ''#demo'' [InitializedDb, DrawClose ''mod'' (Finite 2) 1000 (always 0),
                     DrawReroll ''mod'' (Some ''a'') 0] demo_reloaded) = Some [''b'', ''c''] \<and>
   allowed_of ''c1''
     (run ''#demo'' [InitializedDb, DrawClose ''mod'' (Finite 2) 1000 (always 0),
                     DrawReroll ''mod'' (Some ''a'') 0] demo_reloaded) = Some [''m'', ''sc''] \<and>
   recomputed_of ''#demo''
     (run ''#demo'' [InitializedDb, DrawClose ''mod'' (Finite 2) 1000 (always 0),
                     DrawReroll ''mod'' (Some ''a'') 0] demo_reloaded) = Some [''m'', ''sb'', ''sc'']"
  by code_simp

text \<open>
  C3. Winner selection repeats while the counter is below the requested count: it stops
  when the pool is empty, otherwise it takes the entry at the drawn index of the current
  pool, removes every copy of that identity from the pool and appends the identity to the
  winners. Hence the produced winners \<open>ws\<close> are distinct, come from the initial pool, and
  the final pool is the initial one without any entry of a produced winner, for every
  initial pool, every requested count and every sequence of draws. The selection for one
  replacement, as \<open>rerollDrawing\<close> runs it, is the same loop with count one. (That the draw
  is uniformly distributed is a property of \<open>Math.random\<close>; here every index of the pool
  is a possible draw.)
\<close>

theorem winner_selection:
  assumes "drawings s ch = Some d"
  shows "(\<exists>s' ws. pick_loop rnd n 0 ch s = Inr s' \<and>
           drawings s' ch = Some (d\<lparr>entries := filter (\<lambda>e. e \<notin> set ws) (entries d),
                                    winners := winners d @ ws\<rparr>) \<and>
           distinct ws \<and> set ws \<subseteq> set (entries d) \<and>
           (\<forall>j<length ws. counter_less j n \<and>
               ws ! j = (let pool = filter (\<lambda>e. e \<notin> set (take j ws)) (entries d)
                         in pool ! (rnd j mod length pool))) \<and>
           (\<not> counter_less (length ws) n \<or> filter (\<lambda>e. e \<notin> set ws) (entries d) = [])) \<and>
         pick_loop rnd (Finite 1) 0 ch s =
           (case pickWinner (rnd 0) ch s of Inl e \<Rightarrow> Inl e | Inr (x, s') \<Rightarrow> Inr s')"
  using pick_loop_selects [OF assms, of rnd n 0] pick_loop_once [of rnd ch s] by simp

theorem winner_selection_witness:
  "drawings demo_pool ''#demo'' = Some demo_pool_drawing \<and>
   winners_of ''#demo'' (pick_loop (\<lambda>i. 1) (Finite 2) 0 ''#demo'' demo_pool) = Some [''b'', ''c''] \<and>
   entries_of ''#demo'' (pick_loop (\<lambda>i. 1) (Finite 2) 0 ''#demo'' demo_pool) = Some [''a''] \<and>
   (\<exists>s' ws. pick_loop (\<lambda>i. 1) (Finite 2) 0 ''#demo'' demo_pool = Inr s' \<and>
      drawings s' ''#demo'' =
        Some (demo_pool_drawing\<lparr>entries := filter (\<lambda>e. e \<notin> set ws) (entries demo_pool_drawing),
                                winners := winners demo_pool_drawing @ ws\<rparr>) \<and>
      distinct ws \<and> set ws \<subseteq> set (entries demo_pool_drawing) \<and>
      (\<forall>j<length ws. counter_less j (Finite 2) \<and>
          ws ! j = (let pool = filter (\<lambda>e. e \<notin> set (take j ws)) (entries demo_pool_drawing)
                    in pool ! (1 mod length pool))) \<and>
      (\<not> counter_less (length ws) (Finite 2) \<or>
       filter (\<lambda>e. e \<notin> set ws) (entries demo_pool_drawing) = []))"
proof -
  have h: "drawings demo_pool ''#demo'' = Some demo_pool_drawing"
    by (simp add: demo_pool_def)
  have w: "winners_of ''#demo'' (pick_loop (\<lambda>i. 1) (Finite 2) 0 ''#demo'' demo_pool) = Some [''b'', ''c'']"
    by code_simp
  have e: "entries_of ''#demo'' (pick_loop (\<lambda>i. 1) (Finite 2) 0 ''#demo'' demo_pool) = Some [''a'']"
    by code_simp
  from winner_selection [OF h, of "\<lambda>i. 1" "Finite 2"] h w e show ?thesis
    by blast
qed




text \<open>
  C5, as the code has it. When the winner to replace is among the winners and the pool is
  empty, \<open>rerollDrawing\<close> has already retracted that winner when it finds no entrant left:
  the first occurrence of the winner is gone from the list of winners, which is one
  shorter, the winner's rows of the drawing's time are deleted from the \<open>winners\<close> table,
  the \<open>entries\<close> table is untouched, and the only message is the announcement
  \<open>There are no entrants left\<close> on the channel.
\<close>

theorem reroll_exhausted_retracts:
  assumes "drawings s ch = Some d" and "w \<in> set (winners d)" and "entries d = []"
  shows "\<exists>s'. rerollDrawing ch uname (Some w) r s = Inr s' \<and>
           drawings s' = (drawings s)(ch \<mapsto> d\<lparr>winners := remove1 w (winners d)\<rparr>) \<and>
           length (remove1 w (winners d)) + 1 = length (winners d) \<and>
           winners_tbl (db s') =
             filter (\<lambda>(t, c, u). \<not> (u = w \<and> t = lastTime d)) (winners_tbl (db s)) \<and>
           entries_tbl (db s') = entries_tbl (db s) \<and>
           out s' = out s @ [Say ch ''There are no entrants left'']"
proof -
  define s1 where "s1 = s\<lparr>drawings := (drawings s)(ch \<mapsto> d\<lparr>winners := remove1 w (winners d)\<rparr>),
                  db := (db s)\<lparr>winners_tbl :=
                          filter (\<lambda>(t, c, u). \<not> (u = w \<and> t = lastTime d))
                            (winners_tbl (db s))\<rparr>,
                  pending := pending s @ [SpliceAllowed ch w]\<rparr>"
  have rw: "removeWinner ch w s = Inr (True, s1)"
    unfolding s1_def by (rule removeWinner_present [OF assms(1,2)])
  have "drawings s1 ch = Some (d\<lparr>winners := remove1 w (winners d)\<rparr>)"
    by (simp add: s1_def)
  then have pw: "pickWinner r ch s1 = Inr (None, s1)"
    using assms(3) by (intro pickWinner_empty [of s1 ch "d\<lparr>winners := remove1 w (winners d)\<rparr>"]) auto
  have "rerollDrawing ch uname (Some w) r s = Inr (say ch ''There are no entrants left'' s1)"
    by (simp add: rerollDrawing_def rw pw)
  moreover have "length (remove1 w (winners d)) + 1 = length (winners d)"
    using assms(2) by (simp add: length_remove1) (cases "winners d"; simp)
  ultimately show ?thesis
    by (simp add: say_def s1_def)
qed

theorem reroll_exhausted_witness:
  "drawings demo_exhausted ''#demo'' = Some demo_exhausted_drawing \<and>
   ''a'' \<in> set (winners demo_exhausted_drawing) \<and> entries demo_exhausted_drawing = [] \<and>
   (\<exists>s'. rerollDrawing ''#demo'' ''mod'' (Some ''a'') 0 demo_exhausted = Inr s' \<and>
      drawings s' = (drawings demo_exhausted)(''#demo'' \<mapsto> demo_exhausted_drawing\<lparr>winners := []\<rparr>) \<and>
      out s' = out demo_exhausted @ [Say ''#demo'' ''There are no entrants left''])"
proof -
  have h: "drawings demo_exhausted ''#demo'' = Some demo_exhausted_drawing"
    by (simp add: demo_exhausted_def)
  have w: "''a'' \<in> set (winners demo_exhausted_drawing)" and e: "entries demo_exhausted_drawing = []"
    by (simp_all add: demo_exhausted_drawing_def)
  have r: "remove1 ''a'' (winners demo_exhausted_drawing) = []"
    by (simp add: demo_exhausted_drawing_def)
  from reroll_exhausted_retracts [OF h w e, of "''mod''" 0] h w e r show ?thesis
    by auto
qed

text \<open>
  The single entrant \<open>a\<close> has won and the pool is empty: after \<open>!draw reroll a\<close> the list of
  winners is empty, not the list \<open>[a]\<close> it was; on the state the round produces and on the
  same drawing written out.
\<close>

theorem reroll_exhausted_counterexample:
  "winners_of ''#demo'' (run ''#demo'' single_entrant_round demo_start) = Some [''a''] \<and>
   entries_of ''#demo'' (run ''#demo'' single_entrant_round demo_start) = Some [] \<and>
   winners_of ''#demo''
     (run ''#demo'' (single_entrant_round @ [DrawReroll ''mod'' (Some ''a'') 0]) demo_start) = Some [] \<and>
   winners_of ''#demo'' (Inr demo_exhausted) = Some [''a''] \<and>
   entries_of ''#demo'' (Inr demo_exhausted) = Some [] \<and>
   winners_of ''#demo'' (rerollDrawing ''#demo'' ''mod'' (Some ''a'') 0 demo_exhausted) = Some []"
  by code_simp

text \<open>
  C6, as the code has it. When the winner \<open>w\<close> to replace is among the winners and the
  pool is not empty, \<open>rerollDrawing\<close> removes the first occurrence of \<open>w\<close>, appends the
  identity \<open>w'\<close> at the drawn index of the pool, retires the entries of \<open>w'\<close>, and announces
  the replacement; the number of winners is what it was. The pick is not compared with the
  winners: \<open>w'\<close> is not among the previous winners other than \<open>w\<close> when no such winner has
  an entry in the pool.
\<close>

theorem reroll_replaces:
  assumes "drawings s ch = Some d" and "w \<in> set (winners d)" and "entries d \<noteq> []"
  shows "\<exists>s' w'. rerollDrawing ch uname (Some w) r s = Inr s' \<and>
           w' = entries d ! (r mod length (entries d)) \<and>
           drawings s' = (drawings s)(ch \<mapsto>
             d\<lparr>entries := filter (\<lambda>e. e \<noteq> w') (entries d),
               winners := remove1 w (winners d) @ [w']\<rparr>) \<and>
           length (remove1 w (winners d) @ [w']) = length (winners d) \<and>
           (set (entries d) \<inter> (set (winners d) - {w}) = {} \<longrightarrow>
              w' \<notin> set (winners d) - {w}) \<and>
           out s' = out s @ [Say ch (w @ '' has been replaced by '' @ w' @ ''!'')]"
proof -
  define s1 where "s1 = s\<lparr>drawings := (drawings s)(ch \<mapsto> d\<lparr>winners := remove1 w (winners d)\<rparr>),
                  db := (db s)\<lparr>winners_tbl :=
                          filter (\<lambda>(t, c, u). \<not> (u = w \<and> t = lastTime d))
                            (winners_tbl (db s))\<rparr>,
                  pending := pending s @ [SpliceAllowed ch w]\<rparr>"
  define d1 where "d1 = d\<lparr>winners := remove1 w (winners d)\<rparr>"
  define w' where "w' = entries d ! (r mod length (entries d))"
  have rw: "removeWinner ch w s = Inr (True, s1)"
    unfolding s1_def by (rule removeWinner_present [OF assms(1,2)])
  have d1: "drawings s1 ch = Some d1"
    by (simp add: s1_def d1_def)
  have pw: "pickWinner r ch s1 =
           Inr (Some w',
                s1\<lparr>drawings := (drawings s1)(ch \<mapsto>
                     d1\<lparr>entries := filter (\<lambda>e. e \<noteq> w') (entries d1),
                       winners := winners d1 @ [w']\<rparr>),
                  db := (db s1)\<lparr>
                        entries_tbl := filter (\<lambda>row. snd row \<noteq> w') (entries_tbl (db s1)),
                        winners_tbl := winners_tbl (db s1) @ [(lastTime d1, ch, w')]\<rparr>,
                  pending := pending s1 @ [PushAllowed ch w']\<rparr>)"
    using assms(3) by (intro pickWinner_pick [OF d1]) (simp_all add: d1_def w'_def)
  have res: "rerollDrawing ch uname (Some w) r s =
          Inr (say ch (w @ '' has been replaced by '' @ w' @ ''!'')
                (s1\<lparr>drawings := (drawings s1)(ch \<mapsto>
                     d1\<lparr>entries := filter (\<lambda>e. e \<noteq> w') (entries d1),
                       winners := winners d1 @ [w']\<rparr>),
                  db := (db s1)\<lparr>
                        entries_tbl := filter (\<lambda>row. snd row \<noteq> w') (entries_tbl (db s1)),
                        winners_tbl := winners_tbl (db s1) @ [(lastTime d1, ch, w')]\<rparr>,
                  pending := pending s1 @ [PushAllowed ch w']\<rparr>))"
    by (simp add: rerollDrawing_def rw pw)
  have mem: "w' \<in> set (entries d)" using assms(3) by (simp add: w'_def)
  then have notin: "set (entries d) \<inter> (set (winners d) - {w}) = {} \<longrightarrow>
                    w' \<notin> set (winners d) - {w}"
    by blast
  have len: "length (remove1 w (winners d) @ [w']) = length (winners d)"
    using assms(2) by (simp add: length_remove1) (cases "winners d"; simp)
  have rest: "w' = entries d ! (r mod length (entries d)) \<and>
           drawings (say ch (w @ '' has been replaced by '' @ w' @ ''!'')
                (s1\<lparr>drawings := (drawings s1)(ch \<mapsto>
                     d1\<lparr>entries := filter (\<lambda>e. e \<noteq> w') (entries d1),
                       winners := winners d1 @ [w']\<rparr>),
                  db := (db s1)\<lparr>
                        entries_tbl := filter (\<lambda>row. snd row \<noteq> w') (entries_tbl (db s1)),
                        winners_tbl := winners_tbl (db s1) @ [(lastTime d1, ch, w')]\<rparr>,
                  pending := pending s1 @ [PushAllowed ch w']\<rparr>)) = (drawings s)(ch \<mapsto>
             d\<lparr>entries := filter (\<lambda>e. e \<noteq> w') (entries d),
               winners := remove1 w (winners d) @ [w']\<rparr>) \<and>
           out (say ch (w @ '' has been replaced by '' @ w' @ ''!'')
                (s1\<lparr>drawings := (drawings s1)(ch \<mapsto>
                     d1\<lparr>entries := filter (\<lambda>e. e \<noteq> w') (entries d1),
                       winners := winners d1 @ [w']\<rparr>),
                  db := (db s1)\<lparr>
                        entries_tbl := filter (\<lambda>row. snd row \<noteq> w') (entries_tbl (db s1)),
                        winners_tbl := winners_tbl (db s1) @ [(lastTime d1, ch, w')]\<rparr>,
                  pending := pending s1 @ [PushAllowed ch w']\<rparr>)) =
             out s @ [Say ch (w @ '' has been replaced by '' @ w' @ ''!'')]"
    by (simp add: say_def s1_def d1_def w'_def)
  show ?thesis
    apply (rule exI, rule exI [of _ w'], rule conjI, rule res)
    using notin len rest by blast
qed

theorem reroll_replaces_witness:
  "drawings demo_closed ''#demo'' = Some demo_closed_drawing \<and>
   ''b'' \<in> set (winners demo_closed_drawing) \<and> entries demo_closed_drawing \<noteq> [] \<and>
   set (entries demo_closed_drawing) \<inter> (set (winners demo_closed_drawing) - {''b''}) = {} \<and>
   ''a'' \<notin> set (winners demo_closed_drawing) - {''b''} \<and>
   (\<exists>s'. rerollDrawing ''#demo'' ''mod'' (Some ''b'') 0 demo_closed = Inr s' \<and>
      drawings s' = (drawings demo_closed)(''#demo'' \<mapsto>
         demo_closed_drawing\<lparr>entries := [], winners := [''c'', ''a'']\<rparr>) \<and>
      length [''c'', ''a''] = length (winners demo_closed_drawing) \<and>
      out s' = out demo_closed @ [Say ''#demo'' ''b has been replaced by a!''])"
proof -
  have h: "drawings demo_closed ''#demo'' = Some demo_closed_drawing"
    by (simp add: demo_closed_def)
  have w: "''b'' \<in> set (winners demo_closed_drawing)"
    and e: "entries demo_closed_drawing \<noteq> []"
    and i: "set (entries demo_closed_drawing) \<inter> (set (winners demo_closed_drawing) - {''b''}) = {}"
    by (simp_all add: demo_closed_drawing_def)
  have v: "entries demo_closed_drawing ! (0 mod length (entries demo_closed_drawing)) = ''a''"
    "remove1 ''b'' (winners demo_closed_drawing) = [''c'']"
    "filter (\<lambda>e. e \<noteq> ''a'') (entries demo_closed_drawing) = []"
    by (simp_all add: demo_closed_drawing_def)
  from reroll_replaces [OF h w e, of "''mod''" 0] h w e i v show ?thesis
    by auto
qed

text \<open>
  Without the condition on the pool the new winner can be a winner already. The round of
  \<open>reopened_round\<close> leaves the database \<open>reopened_store\<close>; the program started again on it
  loads the winners \<open>a\<close>, \<open>b\<close> of the last close next to the pool \<open>[b]\<close> of the open
  drawing, and \<open>!draw reroll a\<close> then yields the winners \<open>[b, b]\<close>.
\<close>

theorem reroll_replaces_counterexample:
  "db_of (run ''#demo'' reopened_round demo_start) = Some reopened_store \<and>
   winners_of ''#demo'' (run ''#demo'' [InitializedDb] demo_restarted) = Some [''a'', ''b''] \<and>
   entries_of ''#demo'' (run ''#demo'' [InitializedDb] demo_restarted) = Some [''b''] \<and>
   winners_of ''#demo''
     (run ''#demo'' [InitializedDb, DrawReroll ''mod'' (Some ''a'') 0] demo_restarted) =
     Some [''b'', ''b'']"
  by code_simp

text \<open>
  C7, as the code has it. \<open>closeDrawing\<close> on a drawing that is not open only whispers
  \<open>There is no open drawing!\<close> to the caller; on an open drawing with a count that is not
  a number (\<open>isNaN\<close>) it only whispers the usage line; in both cases drawings, rooms and
  database are unchanged. Every other count, zero, negative and fractional ones
  included, closes the drawing.
\<close>

theorem close_rejections:
  assumes d: "drawings s ch = Some d"
    and cc: "map_of (cfg_channels (config s)) ch = Some cc"
    and rm: "channels s (chatID cc) = Some rm"
  shows "(\<not> open_flag d \<longrightarrow>
            closeDrawing ch uname n now rnd s =
              Inr (s\<lparr>out := out s @ [Whisper uname ''There is no open drawing!'']\<rparr>)) \<and>
         (open_flag d \<and> isNaN n \<longrightarrow>
            closeDrawing ch uname n now rnd s = Inr (drawingUsage uname s) \<and>
            drawings (drawingUsage uname s) = drawings s \<and>
            db (drawingUsage uname s) = db s \<and> channels (drawingUsage uname s) = channels s) \<and>
         (open_flag d \<and> \<not> isNaN n \<longrightarrow>
            (\<exists>s' d'. closeDrawing ch uname n now rnd s = Inr s' \<and>
                     drawings s' ch = Some d' \<and> \<not> open_flag d'))"
proof -
  have a: "closeDrawing ch uname n now rnd s =
             Inr (s\<lparr>out := out s @ [Whisper uname ''There is no open drawing!'']\<rparr>)"
    if "\<not> open_flag d"
    using that d by (simp add: closeDrawing_def whisper_def)
  have b: "closeDrawing ch uname n now rnd s = Inr (drawingUsage uname s) \<and>
           drawings (drawingUsage uname s) = drawings s \<and>
           db (drawingUsage uname s) = db s \<and> channels (drawingUsage uname s) = channels s"
    if "open_flag d \<and> isNaN n"
    using that d by (simp add: closeDrawing_def drawingUsage_def whisper_def)
  have c: "\<exists>s' d'. closeDrawing ch uname n now rnd s = Inr s' \<and>
                   drawings s' ch = Some d' \<and> \<not> open_flag d'"
    if "open_flag d \<and> \<not> isNaN n"
  proof -
    from closeDrawing_closes [OF d _ _ cc rm, of n uname now rnd] that
    obtain s' ws where "closeDrawing ch uname n now rnd s = Inr s'"
      "drawings s' ch = Some (d\<lparr>open_flag := False, lastTime := now,
                                    entries := filter (\<lambda>e. e \<notin> set ws) (entries d),
                                    winners := winners d @ ws\<rparr>)"
      by blast
    then show ?thesis by simp
  qed
  show ?thesis using a b c by blast
qed

theorem close_rejections_witness:
  "drawings demo_start ''#demo'' =
     Some \<lparr>open_flag = False, winners = [], entries = [], lastTime = -1, drawing_id = None\<rparr> \<and>
   drawings demo_pool ''#demo'' = Some demo_pool_drawing \<and> open_flag demo_pool_drawing \<and>
   isNaN NaN \<and> \<not> isNaN (Finite 0) \<and>
   map_of (cfg_channels (config demo_pool)) ''#demo'' = Some \<lparr>chatID = ''c1'', mainUser = ''m''\<rparr> \<and>
   channels demo_pool ''c1'' = Some \<lparr>allowedMembers = [''m''], state = Joining, key = ''#demo''\<rparr> \<and>
   closeDrawing ''#demo'' ''mod'' (Finite 2) 1000 (always 0) demo_start =
     Inr (demo_start\<lparr>out := out demo_start @ [Whisper ''mod'' ''There is no open drawing!'']\<rparr>) \<and>
   closeDrawing ''#demo'' ''mod'' NaN 1000 (always 0) demo_pool = Inr (drawingUsage ''mod'' demo_pool) \<and>
   drawings (drawingUsage ''mod'' demo_pool) = drawings demo_pool \<and>
   (\<exists>s' d'. closeDrawing ''#demo'' ''mod'' (Finite 0) 1000 (always 0) demo_pool = Inr s' \<and>
      drawings s' ''#demo'' = Some d' \<and> \<not> open_flag d')"
proof -
  have h0: "drawings demo_start ''#demo'' =
     Some \<lparr>open_flag = False, winners = [], entries = [], lastTime = -1, drawing_id = None\<rparr>"
    by (simp add: demo_start_def constructor_def demo_config_def)
  have c0: "map_of (cfg_channels (config demo_start)) ''#demo'' = Some \<lparr>chatID = ''c1'', mainUser = ''m''\<rparr>"
    by (simp add: demo_start_def constructor_def demo_config_def)
  have r0: "channels demo_start (chatID \<lparr>chatID = ''c1'', mainUser = ''m''\<rparr>) =
      Some \<lparr>allowedMembers = [''m''], state = Joining, key = ''#demo''\<rparr>"
    by (simp add: demo_start_def constructor_def demo_config_def)
  have h: "drawings demo_pool ''#demo'' = Some demo_pool_drawing"
    by (simp add: demo_pool_def)
  have op: "open_flag demo_pool_drawing" by (simp add: demo_pool_drawing_def)
  have cc: "map_of (cfg_channels (config demo_pool)) ''#demo'' = Some \<lparr>chatID = ''c1'', mainUser = ''m''\<rparr>"
    using c0 by (simp add: demo_pool_def)
  have rm: "channels demo_pool (chatID \<lparr>chatID = ''c1'', mainUser = ''m''\<rparr>) =
      Some \<lparr>allowedMembers = [''m''], state = Joining, key = ''#demo''\<rparr>"
    using r0 by (simp add: demo_pool_def)
  from close_rejections [OF h0 c0 r0, of "''mod''" "Finite 2" 1000 "always 0"]
    close_rejections [OF h cc rm, of "''mod''" NaN 1000 "always 0"]
    close_rejections [OF h cc rm, of "''mod''" "Finite 0" 1000 "always 0"]
    h0 h op cc rm
  show ?thesis by simp
qed

text \<open>
  The counts \<open>0\<close>, \<open>-1\<close> and \<open>5/2\<close> on an open drawing: no rejection, the drawing is closed
  each time, and \<open>5/2\<close> draws three winners.
\<close>

theorem close_rejections_counterexample:
  "open_of ''#demo'' (Inr demo_pool) = Some True \<and>
   open_of ''#demo'' (closeDrawing ''#demo'' ''mod'' (Finite 0) 1000 (always 0) demo_pool) = Some False \<and>
   open_of ''#demo'' (closeDrawing ''#demo'' ''mod'' (Finite (- 1)) 1000 (always 0) demo_pool) = Some False \<and>
   open_of ''#demo'' (closeDrawing ''#demo'' ''mod'' (Finite (5 / 2)) 1000 (always 0) demo_pool) = Some False \<and>
   winners_of ''#demo'' (closeDrawing ''#demo'' ''mod'' (Finite (5 / 2)) 1000 (always 0) demo_pool) =
     Some [''a'', ''b'', ''c'']"
  by code_simp

text \<open>
  C8. Entering and then quitting should leave the pool as it was before the entry, with
  the user's rows gone from memory and storage. The handler of \<open>!quit\<close> does not do that.
  A subscriber enters an empty open drawing with three tickets; the user's \<open>!quit\<close> finds
  the display name in the pool and throws on \<open>this.drawings.splice\<close> before it has removed
  anything, so the three tickets stay. A viewer whose display name is capitalised enters
  with one ticket; the user's \<open>!quit\<close> does not find the display name, deletes the user's
  rows from the table and leaves the ticket in the pool.
\<close>

theorem quit_leaves_tickets:
  "entries_of ''#demo'' (run ''#demo'' [InitializedDb, DrawOpen ''mod''] demo_start) = Some [] \<and>
   entries_of ''#demo'' (run ''#demo'' [InitializedDb, DrawOpen ''mod'', PlayCmd subscriber_d] demo_start) =
     Some [''d'', ''d'', ''d''] \<and>
   error_of
     (run ''#demo'' [InitializedDb, DrawOpen ''mod'', PlayCmd subscriber_d, QuitCmd subscriber_d]
        demo_start) = Some TypeError \<and>
   entries_of ''#demo'' (run ''#demo'' [InitializedDb, DrawOpen ''mod'', PlayCmd viewer_A] demo_start) =
     Some [''a''] \<and>
   entries_of ''#demo''
     (run ''#demo'' [InitializedDb, DrawOpen ''mod'', PlayCmd viewer_A, QuitCmd viewer_A] demo_start) =
     Some [''a''] \<and>
   stored_entries_of
     (run ''#demo'' [InitializedDb, DrawOpen ''mod'', PlayCmd viewer_A, QuitCmd viewer_A] demo_start) =
     Some []"
  by code_simp

text \<open>
  C9, as the code has it. No membership event is queued or deferred: \<open>steamStateChanged\<close>
  judges it at once against the room's allow-list of that moment. In the object as
  constructed, before the handler of \<open>initialized-db\<close> has run, the allow-list of a
  configured room (chat ids distinct) is the main user alone, so an \<open>Entered\<close> event then
  kicks every member who is neither the main user nor the bot.
\<close>

theorem entered_before_load:
  assumes "(ch, cc) \<in> set (cfg_channels cfg)"
    and "distinct (map (chatID \<circ> snd) (cfg_channels cfg))"
  shows "steamStateChanged Entered userID (chatID cc) byID (constructor cfg store botID present) =
           Inr (if userID \<noteq> mainUser cc \<and> userID \<noteq> botID
                then (constructor cfg store botID present)\<lparr>out := [Kick (chatID cc) userID]\<rparr>
                else constructor cfg store botID present)"
proof -
  have rm: "channels (constructor cfg store botID present) (chatID cc) =
              Some \<lparr>allowedMembers = [mainUser cc], state = Joining, key = ch\<rparr>"
    using rooms_of_config [OF assms] by (simp add: constructor_def)
  have "steamID (constructor cfg store botID present) = botID"
    "out (constructor cfg store botID present) = []"
    by (simp_all add: constructor_def)
  then show ?thesis
    using rm by (simp add: steamStateChanged_def kickIfForbidden_result)
qed

theorem entered_before_load_witness:
  "(''#demo'', \<lparr>chatID = ''c1'', mainUser = ''m''\<rparr>) \<in> set (cfg_channels demo_config) \<and>
   distinct (map (chatID \<circ> snd) (cfg_channels demo_config)) \<and>
   steamStateChanged Entered ''sa'' ''c1'' ''sa'' demo_restarted =
     Inr (demo_restarted\<lparr>out := [Kick ''c1'' ''sa'']\<rparr>) \<and>
   steamStateChanged Entered ''m'' ''c1'' ''m'' demo_restarted = Inr demo_restarted"
proof -
  have m: "(''#demo'', \<lparr>chatID = ''c1'', mainUser = ''m''\<rparr>) \<in> set (cfg_channels demo_config)"
    and d: "distinct (map (chatID \<circ> snd) (cfg_channels demo_config))"
    by (simp_all add: demo_config_def)
  from entered_before_load [OF m d, of "''sa''" "''sa''" reopened_store "''bot''" Map.empty]
    entered_before_load [OF m d, of "''m''" "''m''" reopened_store "''bot''" Map.empty]
    m d
  show ?thesis by (simp add: demo_restarted_def)
qed

text \<open>
  The program started on a database that records the winners \<open>a\<close> and \<open>b\<close>: the Steam id of
  \<open>a\<close> entering before the load is kicked, judged against \<open>[m]\<close>; entering after the load
  it is allowed.
\<close>

theorem entered_before_load_counterexample:
  "allowed_of ''c1'' (Inr demo_restarted) = Some [''m''] \<and>
   out_of (run ''#demo'' [ChatStateChange Entered ''sa'' ''c1'' ''sa''] demo_restarted) =
     Some [Kick ''c1'' ''sa''] \<and>
   allowed_of ''c1'' (run ''#demo'' [InitializedDb] demo_restarted) = Some [''m'', ''sa'', ''sb''] \<and>
   out_of (run ''#demo'' [InitializedDb, ChatStateChange Entered ''sa'' ''c1'' ''sa''] demo_restarted) =
     Some []"
  by code_simp

text \<open>
  C10. The main member does not stay in the allow-list. With all entrants drawn and the
  pool empty, rerolling the first winner \<open>a\<close> cuts the allow-list down to \<open>[m]\<close>;
  rerolling \<open>b\<close> then looks for a Steam id that is no longer in the list, \<open>indexOf\<close> gives
  \<open>-1\<close>, and \<open>splice(-1)\<close> deletes the last element, which is the main member. This is
  so in a round played from a fresh start and in a close and two rerolls after a reload
  of an open drawing.
\<close>

theorem rerolls_delete_main_member:
  "allowed_of ''c1'' (run ''#demo'' two_entrant_round demo_start) = Some [''m'', ''sa'', ''sb''] \<and>
   allowed_of ''c1''
     (run ''#demo'' (two_entrant_round @ [DrawReroll ''mod'' (Some ''a'') 0]) demo_start) =
     Some [''m''] \<and>
   winners_of ''#demo''
     (run ''#demo'' (two_entrant_round @ [DrawReroll ''mod'' (Some ''a'') 0]) demo_start) =
     Some [''b''] \<and>
   allowed_of ''c1''
     (run ''#demo''
        (two_entrant_round @ [DrawReroll ''mod'' (Some ''a'') 0, DrawReroll ''mod'' (Some ''b'') 0])
        demo_start) = Some [] \<and>
   allowed_of ''c1'' (run ''#demo'' [InitializedDb] demo_reloaded) = Some [''m''] \<and>
   allowed_of ''c1''
     (run ''#demo'' [InitializedDb, DrawClose ''mod'' (Finite 3) 1000 (always 0)] demo_reloaded) =
     Some [''m'', ''sa'', ''sb'', ''sc''] \<and>
   allowed_of ''c1''
     (run ''#demo'' [InitializedDb, DrawClose ''mod'' (Finite 3) 1000 (always 0),
                     DrawReroll ''mod'' (Some ''a'') 0] demo_reloaded) = Some [''m''] \<and>
   allowed_of ''c1''
     (run ''#demo'' [InitializedDb, DrawClose ''mod'' (Finite 3) 1000 (always 0),
                     DrawReroll ''mod'' (Some ''a'') 0, DrawReroll ''mod'' (Some ''b'') 0]
        demo_reloaded) = Some []"
  by code_simp

end
